theory Spec2Isabelle
  imports Main
begin

section \<open>The pattern \<open>\w+\<close> of module \<open>re\<close>\<close>

text \<open>
  The notebook of chapter 14 builds its word list with \<^verbatim>\<open>re.findall(r'\w+', sentence)\<close>
  and, in its last variant, with \<^verbatim>\<open>re.compile(r'\w+').finditer(sentence)\<close>.
  A Python string is a sequence of code points; the development is parametric in the type
  \<open>'c\<close> of code points and in the character class \<open>w\<close> that \<^verbatim>\<open>\w\<close> denotes,
  so every general result holds for the Unicode class of \<^verbatim>\<open>re\<close> as well as for
  its ASCII part \<open>ascii_word\<close> below.

  The scanner works on positions, as the regular expression engine does: at a position
  where \<open>w\<close> holds the greedy match \<^verbatim>\<open>\w+\<close> extends as far as \<open>w\<close> holds
  (\<open>match_end\<close>); at any other position no match starts and the scan moves on by one.
  \<open>search\<close> is one call of \<^verbatim>\<open>pattern.search(s, pos)\<close>, giving the span of the next
  match; \<open>finditer\<close> lists the spans of all non-overlapping matches from \<open>pos\<close> on,
  each search resuming where the previous match ended; \<open>group\<close> is \<^verbatim>\<open>match.group()\<close>,
  the matched substring; \<open>findall\<close> is the list of the matched substrings.
\<close>

definition match_end :: "('c \<Rightarrow> bool) \<Rightarrow> 'c list \<Rightarrow> nat \<Rightarrow> nat" where
  "match_end w s pos = pos + length (takeWhile w (drop pos s))"

function search :: "('c \<Rightarrow> bool) \<Rightarrow> 'c list \<Rightarrow> nat \<Rightarrow> (nat \<times> nat) option" where
  "search w s pos =
     (if length s \<le> pos then None
      else if w (s ! pos) then Some (pos, match_end w s pos)
      else search w s (Suc pos))"
  by pat_completeness auto
termination
  by (relation "measure (\<lambda>(w, s, pos). length s - pos)") auto

declare search.simps [simp del]

lemma search_bounds:
  "search w s pos = Some (b, e) \<Longrightarrow> pos \<le> b \<and> b < e \<and> e \<le> length s"
proof (induction w s pos rule: search.induct)
  case (1 w s pos)
  show ?case
  proof (cases "length s \<le> pos")
    case True
    with "1.prems" show ?thesis by (simp add: search.simps)
  next
    case False
    note inside = this
    show ?thesis
    proof (cases "w (s ! pos)")
      case True
      from inside have d: "drop pos s = s ! pos # drop (Suc pos) s"
        by (simp add: Cons_nth_drop_Suc)
      have "length (takeWhile w (drop pos s)) \<le> length (drop pos s)"
        by (rule length_takeWhile_le)
      with "1.prems" inside True d show ?thesis
        by (auto simp: search.simps [of w s pos] match_end_def)
    next
      case False
      with "1.prems" inside have "search w s (Suc pos) = Some (b, e)"
        by (simp add: search.simps [of w s pos])
      with "1.IH" inside False show ?thesis by auto
    qed
  qed
qed

function finditer :: "('c \<Rightarrow> bool) \<Rightarrow> 'c list \<Rightarrow> nat \<Rightarrow> (nat \<times> nat) list" where
  "finditer w s pos =
     (case search w s pos of
        None \<Rightarrow> []
      | Some (b, e) \<Rightarrow> (b, e) # finditer w s e)"
  by pat_completeness auto
termination
  by (relation "measure (\<lambda>(w, s, pos). length s - pos)")
     (auto dest!: search_bounds)

declare finditer.simps [simp del]

definition group :: "'c list \<Rightarrow> nat \<times> nat \<Rightarrow> 'c list" where
  "group s m = take (snd m - fst m) (drop (fst m) s)"

definition findall :: "('c \<Rightarrow> bool) \<Rightarrow> 'c list \<Rightarrow> 'c list list" where
  "findall w s = map (group s) (finditer w s 0)"

text \<open>
  On ASCII text \<^verbatim>\<open>\w\<close> is the class \<^verbatim>\<open>[a-zA-Z0-9_]\<close>.
\<close>

definition ascii_word :: "char \<Rightarrow> bool" where
  "ascii_word c \<longleftrightarrow>
     (let n = of_char c :: nat
      in (48 \<le> n \<and> n \<le> 57) \<or> (65 \<le> n \<and> n \<le> 90) \<or> n = 95 \<or> (97 \<le> n \<and> n \<le> 122))"

section \<open>Exceptions and list indexing\<close>

text \<open>
  The exceptions that occur in the two notebooks. \<open>InvalidReference\<close> is not a Python
  exception: objects live in stores addressed by position, and it is what an operation of
  the model answers when it is given an address outside its store, which no Python
  reference ever is.

  \<open>getitem\<close> is \<^verbatim>\<open>xs[i]\<close> on a list: a negative index counts from the end, and an
  index outside the list raises \<^verbatim>\<open>IndexError\<close>.
\<close>

datatype exn = StopIteration | IndexError | AttributeError | TypeError | RecursionError
  | InvalidReference

definition getitem :: "'a list \<Rightarrow> int \<Rightarrow> exn + 'a" where
  "getitem xs i =
     (if 0 \<le> i \<and> i < int (length xs) then Inr (xs ! nat i)
      else if i < 0 \<and> - int (length xs) \<le> i then Inr (xs ! nat (int (length xs) + i))
      else Inl IndexError)"

section \<open>The hand-built iterator: \<open>Sentence\<close> and \<open>SentenceIterator\<close>\<close>

text \<open>
  \<^verbatim>\<open>
  class Sentence:
      def __init__(self, sentence):
          self.sentence = sentence
          self.words = re.findall(r'\w+', sentence)
      def __iter__(self):
          return SentenceIterator(self.words)

  class SentenceIterator(abc.Iterator):
      def __init__(self, words):
          self.words = words
          self._index = 0
      def __next__(self):
          try:
              word = self.words[self._index]
          except IndexError:
              raise StopIteration()
          else:
              self._index += 1
          return word
  \<close>
  The list built by \<^verbatim>\<open>re.findall\<close> is one object, shared by the \<open>Sentence\<close> and
  by every \<open>SentenceIterator\<close> made from it, so the heap keeps three stores: the list
  objects, the \<open>Sentence\<close> objects and the \<open>SentenceIterator\<close> objects. A reference
  is a position in its store, and a new object is appended to its store. The field
  \<^verbatim>\<open>_index\<close> is \<open>index\<close> here, a Python integer.
\<close>

record 'c Sentence =
  sentence :: "'c list"
  words :: nat

record SentenceIterator =
  words :: nat
  index :: int

record 'c heap =
  lists :: "'c list list list"
  sentences :: "'c Sentence list"
  iterators :: "SentenceIterator list"

definition Sentence_init :: "('c \<Rightarrow> bool) \<Rightarrow> 'c heap \<Rightarrow> 'c list \<Rightarrow> nat \<times> 'c heap" where
  "Sentence_init w h s =
     (length (sentences h),
      h\<lparr>lists := lists h @ [findall w s],
        sentences := sentences h @ [\<lparr>Sentence.sentence = s, words = length (lists h)\<rparr>]\<rparr>)"

definition SentenceIterator_init :: "'c heap \<Rightarrow> nat \<Rightarrow> nat \<times> 'c heap" where
  "SentenceIterator_init h ws =
     (length (iterators h),
      h\<lparr>iterators := iterators h @ [\<lparr>words = ws, index = 0\<rparr>]\<rparr>)"

definition Sentence_iter :: "'c heap \<Rightarrow> nat \<Rightarrow> (exn + nat) \<times> 'c heap" where
  "Sentence_iter h self =
     (if self < length (sentences h)
      then (case SentenceIterator_init h (Sentence.words (sentences h ! self)) of
              (it, h') \<Rightarrow> (Inr it, h'))
      else (Inl InvalidReference, h))"

definition SentenceIterator_next :: "'c heap \<Rightarrow> nat \<Rightarrow> (exn + 'c list) \<times> 'c heap" where
  "SentenceIterator_next h self =
     (if self < length (iterators h) \<and>
         SentenceIterator.words (iterators h ! self) < length (lists h)
      then (let it = iterators h ! self
            in case getitem (lists h ! SentenceIterator.words it) (index it) of
                 Inl IndexError \<Rightarrow> (Inl StopIteration, h)
               | Inl e \<Rightarrow> (Inl e, h)
               | Inr word \<Rightarrow>
                   (Inr word, h\<lparr>iterators := (iterators h)[self := it\<lparr>index := index it + 1\<rparr>]\<rparr>))
      else (Inl InvalidReference, h))"

text \<open>
  \<open>SentenceIterator\<close> defines no \<^verbatim>\<open>__iter__\<close>; it inherits the one of
  \<^verbatim>\<open>collections.abc.Iterator\<close>, whose body is \<^verbatim>\<open>return self\<close> (the notebook
  says so: an iterator implements \<^verbatim>\<open>__iter__\<close> to return itself).
\<close>

definition SentenceIterator_iter :: "'c heap \<Rightarrow> nat \<Rightarrow> (exn + nat) \<times> 'c heap" where
  "SentenceIterator_iter h self =
     (if self < length (iterators h) then (Inr self, h) else (Inl InvalidReference, h))"

text \<open>
  \<^verbatim>\<open>for word in sentence: print(word)\<close> calls \<^verbatim>\<open>iter(sentence)\<close> once and
  then \<^verbatim>\<open>next\<close> on the iterator until it raises \<^verbatim>\<open>StopIteration\<close>, which ends the
  loop; any other exception leaves it. \<open>drain\<close> is the loop on the iterator and
  \<open>for_loop\<close> the whole statement; both return the words in the order they were
  printed. The loop runs on fuel: \<open>None\<close> means that the fuel ran out before the
  iterator was exhausted.
\<close>

fun drain :: "nat \<Rightarrow> 'c heap \<Rightarrow> nat \<Rightarrow> ((exn + 'c list list) \<times> 'c heap) option" where
  "drain 0 h it = None"
| "drain (Suc fuel) h it =
     (case SentenceIterator_next h it of
        (Inl StopIteration, h') \<Rightarrow> Some (Inr [], h')
      | (Inl e, h') \<Rightarrow> Some (Inl e, h')
      | (Inr word, h') \<Rightarrow>
          (case drain fuel h' it of
             None \<Rightarrow> None
           | Some (Inl e, h'') \<Rightarrow> Some (Inl e, h'')
           | Some (Inr ws, h'') \<Rightarrow> Some (Inr (word # ws), h'')))"

definition for_loop :: "nat \<Rightarrow> 'c heap \<Rightarrow> nat \<Rightarrow> ((exn + 'c list list) \<times> 'c heap) option" where
  "for_loop fuel h s =
     (case Sentence_iter h s of
        (Inl e, h') \<Rightarrow> Some (Inl e, h')
      | (Inr it, h') \<Rightarrow> drain fuel h' it)"

definition empty_heap :: "'c heap" where
  "empty_heap = \<lparr>lists = [], sentences = [], iterators = []\<rparr>"

text \<open>
  What a client of the two classes can do with a heap: ask a \<open>Sentence\<close> for an
  iterator (\<^verbatim>\<open>iter(sentence)\<close>), advance an iterator (\<^verbatim>\<open>next(it)\<close>), and ask an
  iterator for an iterator (\<^verbatim>\<open>iter(it)\<close>). \<open>exec\<close> performs one call and keeps the
  heap it leaves; \<open>execs\<close> performs a sequence of calls.
\<close>

datatype call = IterSentence nat | Next nat | IterCursor nat

fun exec :: "'c heap \<Rightarrow> call \<Rightarrow> 'c heap" where
  "exec h (IterSentence s) = snd (Sentence_iter h s)"
| "exec h (Next it) = snd (SentenceIterator_next h it)"
| "exec h (IterCursor it) = snd (SentenceIterator_iter h it)"

definition execs :: "'c heap \<Rightarrow> call list \<Rightarrow> 'c heap" where
  "execs h cs = foldl exec h cs"

text \<open>
  The state machine of the specification: a cursor is \<open>Active\<close> at a position or
  \<open>Exhausted\<close>. \<open>transition toks a out a'\<close> says that in state \<open>a\<close> over the tokens
  \<open>toks\<close> an advance gives \<open>out\<close> and leads to \<open>a'\<close>: from \<open>Active i\<close> with
  \<open>i < length toks\<close> token \<open>i\<close> and \<open>Active (i + 1)\<close>; from \<open>Active (length toks)\<close>
  the end-of-sequence signal and \<open>Exhausted\<close>; from \<open>Exhausted\<close> the signal and
  \<open>Exhausted\<close>. \<open>tracks h it toks a\<close> relates the iterator object at \<open>it\<close> to a state
  of the machine: it reads the tokens \<open>toks\<close>, and its index is the position of an
  active state, or the number of tokens for the exhausted one.
\<close>

datatype cursor_state = Active nat | Exhausted

definition transition ::
  "'t list \<Rightarrow> cursor_state \<Rightarrow> exn + 't \<Rightarrow> cursor_state \<Rightarrow> bool" where
  "transition toks a out a' =
     (case a of
        Active i \<Rightarrow>
          i < length toks \<and> out = Inr (toks ! i) \<and> a' = Active (Suc i) \<or>
          i = length toks \<and> out = Inl StopIteration \<and> a' = Exhausted
      | Exhausted \<Rightarrow> out = Inl StopIteration \<and> a' = Exhausted)"

definition reads :: "'c heap \<Rightarrow> nat \<Rightarrow> 'c list list \<Rightarrow> bool" where
  "reads h it toks \<longleftrightarrow>
     it < length (iterators h) \<and>
     SentenceIterator.words (iterators h ! it) < length (lists h) \<and>
     lists h ! SentenceIterator.words (iterators h ! it) = toks"

definition tracks :: "'c heap \<Rightarrow> nat \<Rightarrow> 'c list list \<Rightarrow> cursor_state \<Rightarrow> bool" where
  "tracks h it toks a \<longleftrightarrow>
     reads h it toks \<and>
     (case a of
        Active i \<Rightarrow> index (iterators h ! it) = int i \<and> i \<le> length toks
      | Exhausted \<Rightarrow> index (iterators h ! it) = int (length toks))"

section \<open>Maximal runs of word characters\<close>

text \<open>
  The specification speaks of tokens as maximal contiguous runs of word characters.
  A run of \<open>s\<close> is a non-empty range of positions \<open>i..<j\<close> all of whose characters are
  word characters; it is maximal when it can be extended neither to the left nor to the
  right. \<open>maximal_runs\<close> lists the maximal runs in the order they occur in \<open>s\<close>.
  \<open>run_start\<close> says that a maximal run starts at a position.
\<close>

definition is_run :: "('c \<Rightarrow> bool) \<Rightarrow> 'c list \<Rightarrow> nat \<Rightarrow> nat \<Rightarrow> bool" where
  "is_run w s i j \<longleftrightarrow> i < j \<and> j \<le> length s \<and> (\<forall>k\<in>{i..<j}. w (s ! k))"

definition is_maximal_run :: "('c \<Rightarrow> bool) \<Rightarrow> 'c list \<Rightarrow> nat \<Rightarrow> nat \<Rightarrow> bool" where
  "is_maximal_run w s i j \<longleftrightarrow>
     is_run w s i j \<and> (i = 0 \<or> \<not> w (s ! (i - 1))) \<and> (j = length s \<or> \<not> w (s ! j))"

definition maximal_runs :: "('c \<Rightarrow> bool) \<Rightarrow> 'c list \<Rightarrow> (nat \<times> nat) list" where
  "maximal_runs w s =
     [(i, j). i \<leftarrow> [0..<length s], j \<leftarrow> [Suc i..<Suc (length s)], is_maximal_run w s i j]"

definition run_start :: "('c \<Rightarrow> bool) \<Rightarrow> 'c list \<Rightarrow> nat \<Rightarrow> bool" where
  "run_start w s i \<longleftrightarrow> i < length s \<and> w (s ! i) \<and> (i = 0 \<or> \<not> w (s ! (i - 1)))"

text \<open>
  The heap after \<^verbatim>\<open>Sentence('a-b')\<close> on an empty heap, to run calls on.
\<close>

definition example_heap :: "char heap" where
  "example_heap = snd (Sentence_init ascii_word empty_heap ''a-b'')"

section \<open>The generator variants of \<open>Sentence\<close>\<close>

text \<open>
  The second \<open>Sentence\<close> of the notebook has the same \<^verbatim>\<open>__init__\<close> and a generator
  function for \<^verbatim>\<open>__iter__\<close>:
  \<^verbatim>\<open>
      def __iter__(self):
          for word in self.words:
              yield word
          return
  \<close>
  Calling it runs none of the body and returns a generator object holding the frame of
  the call. The frame is \<open>Created self\<close> before the first \<^verbatim>\<open>next\<close>; it is
  \<open>Suspended lr pos\<close> at the \<^verbatim>\<open>yield\<close>, inside the loop over the list object \<open>lr\<close>
  whose list iterator stands at \<open>pos\<close>; it is \<open>Finished\<close> once the body has returned.
  \<open>resume\<close> is what \<^verbatim>\<open>next\<close> does at the head of the loop: the list iterator gives the
  next item, which is yielded, or is exhausted, and then the loop ends, the body returns
  and the generator raises \<^verbatim>\<open>StopIteration\<close>. The first \<^verbatim>\<open>next\<close> evaluates
  \<^verbatim>\<open>self.words\<close> and starts the list iterator at zero.
\<close>

datatype gen_frame = Created nat | Suspended nat nat | Finished

record 'c gen_heap =
  gen_lists :: "'c list list list"
  gen_sentences :: "'c Sentence list"
  generators :: "gen_frame list"

definition Sentence_gen_init :: "('c \<Rightarrow> bool) \<Rightarrow> 'c gen_heap \<Rightarrow> 'c list \<Rightarrow> nat \<times> 'c gen_heap" where
  "Sentence_gen_init w h s =
     (length (gen_sentences h),
      h\<lparr>gen_lists := gen_lists h @ [findall w s],
        gen_sentences := gen_sentences h @ [\<lparr>Sentence.sentence = s, words = length (gen_lists h)\<rparr>]\<rparr>)"

definition Sentence_gen_iter :: "'c gen_heap \<Rightarrow> nat \<Rightarrow> (exn + nat) \<times> 'c gen_heap" where
  "Sentence_gen_iter h self =
     (if self < length (gen_sentences h)
      then (Inr (length (generators h)), h\<lparr>generators := generators h @ [Created self]\<rparr>)
      else (Inl InvalidReference, h))"

definition resume :: "'c gen_heap \<Rightarrow> nat \<Rightarrow> nat \<Rightarrow> nat \<Rightarrow> (exn + 'c list) \<times> 'c gen_heap" where
  "resume h g lr pos =
     (if lr < length (gen_lists h)
      then (if pos < length (gen_lists h ! lr)
            then (Inr (gen_lists h ! lr ! pos),
                  h\<lparr>generators := (generators h)[g := Suspended lr (Suc pos)]\<rparr>)
            else (Inl StopIteration, h\<lparr>generators := (generators h)[g := Finished]\<rparr>))
      else (Inl InvalidReference, h))"

definition gen_next :: "'c gen_heap \<Rightarrow> nat \<Rightarrow> (exn + 'c list) \<times> 'c gen_heap" where
  "gen_next h g =
     (if g < length (generators h)
      then (case generators h ! g of
              Created self \<Rightarrow>
                if self < length (gen_sentences h)
                then resume h g (Sentence.words (gen_sentences h ! self)) 0
                else (Inl InvalidReference, h)
            | Suspended lr pos \<Rightarrow> resume h g lr pos
            | Finished \<Rightarrow> (Inl StopIteration, h))
      else (Inl InvalidReference, h))"

text \<open>
  The third \<open>Sentence\<close> keeps the compiled pattern and the string, and returns a
  generator expression over \<^verbatim>\<open>finditer\<close>:
  \<^verbatim>\<open>
      def __init__(self, sentence):
          self.re_word = re.compile(r'\w+')
          self.sentence = sentence
      def __iter__(self):
          return (match.group()
                  for match in self.re_word.finditer(self.sentence))
  \<close>
  The iterable of a generator expression is evaluated when the expression is, so the
  frame holds the scanner that \<^verbatim>\<open>finditer\<close> returned: the pattern, the string and the
  position at which the next search starts. Each \<^verbatim>\<open>next\<close> searches from there; a match
  is yielded as \<^verbatim>\<open>match.group()\<close> and the scanner moves to its end; without a match the
  scanner is exhausted, the generator returns and is \<open>Done\<close>.
\<close>

record 'c Sentence_genexp =
  re_word :: "'c \<Rightarrow> bool"
  sentence :: "'c list"

datatype 'c genexp_frame = Scanning "'c \<Rightarrow> bool" "'c list" nat | Done

record 'c genexp_heap =
  genexp_sentences :: "'c Sentence_genexp list"
  genexps :: "'c genexp_frame list"

definition Sentence_genexp_init ::
  "('c \<Rightarrow> bool) \<Rightarrow> 'c genexp_heap \<Rightarrow> 'c list \<Rightarrow> nat \<times> 'c genexp_heap" where
  "Sentence_genexp_init w h s =
     (length (genexp_sentences h),
      h\<lparr>genexp_sentences := genexp_sentences h @ [\<lparr>re_word = w, sentence = s\<rparr>]\<rparr>)"

definition Sentence_genexp_iter :: "'c genexp_heap \<Rightarrow> nat \<Rightarrow> (exn + nat) \<times> 'c genexp_heap" where
  "Sentence_genexp_iter h self =
     (if self < length (genexp_sentences h)
      then (let obj = genexp_sentences h ! self
            in (Inr (length (genexps h)),
                h\<lparr>genexps := genexps h @
                   [Scanning (re_word obj) (Sentence_genexp.sentence obj) 0]\<rparr>))
      else (Inl InvalidReference, h))"

definition genexp_next :: "'c genexp_heap \<Rightarrow> nat \<Rightarrow> (exn + 'c list) \<times> 'c genexp_heap" where
  "genexp_next h g =
     (if g < length (genexps h)
      then (case genexps h ! g of
              Scanning w s pos \<Rightarrow>
                (case search w s pos of
                   Some m \<Rightarrow> (Inr (group s m), h\<lparr>genexps := (genexps h)[g := Scanning w s (snd m)]\<rparr>)
                 | None \<Rightarrow> (Inl StopIteration, h\<lparr>genexps := (genexps h)[g := Done]\<rparr>))
            | Done \<Rightarrow> (Inl StopIteration, h))
      else (Inl InvalidReference, h))"

section \<open>Clients of a traversable sequence\<close>

text \<open>
  A client of one sequence begins traversals and advances the cursors it has obtained,
  in any order; it names a cursor by the order in which it obtained it. \<open>client\<close> runs
  such a program against an implementation, given by its traversal request \<open>begin\<close> and
  its advance \<open>adv\<close>, and returns what the client sees: the result of every advance (and
  the exception of a traversal request that fails). \<open>contract\<close> is the contract of the
  specification for the same programs: every traversal has a position of its own, which
  starts at zero; an advance returns the token at the position and moves it by one, or
  signals the end of the sequence when the position has reached the number of tokens.
\<close>

datatype client_op = Traverse | Advance nat

fun client ::
  "('h \<Rightarrow> (exn + nat) \<times> 'h) \<Rightarrow> ('h \<Rightarrow> nat \<Rightarrow> (exn + 't) \<times> 'h) \<Rightarrow>
   'h \<Rightarrow> nat list \<Rightarrow> client_op list \<Rightarrow> (exn + 't) list" where
  "client begin adv h cs [] = []"
| "client begin adv h cs (Traverse # ops) =
     (case begin h of
        (Inr c, h') \<Rightarrow> client begin adv h' (cs @ [c]) ops
      | (Inl e, h') \<Rightarrow> Inl e # client begin adv h' cs ops)"
| "client begin adv h cs (Advance j # ops) =
     (if j < length cs
      then (case adv h (cs ! j) of (r, h') \<Rightarrow> r # client begin adv h' cs ops)
      else client begin adv h cs ops)"

fun contract :: "'t list \<Rightarrow> nat list \<Rightarrow> client_op list \<Rightarrow> (exn + 't) list" where
  "contract toks ps [] = []"
| "contract toks ps (Traverse # ops) = contract toks (ps @ [0]) ops"
| "contract toks ps (Advance j # ops) =
     (if j < length ps
      then (if ps ! j < length toks
            then Inr (toks ! (ps ! j)) # contract toks (ps[j := Suc (ps ! j)]) ops
            else Inl StopIteration # contract toks ps ops)
      else contract toks ps ops)"

definition observe_handbuilt ::
  "('c \<Rightarrow> bool) \<Rightarrow> 'c heap \<Rightarrow> 'c list \<Rightarrow> client_op list \<Rightarrow> (exn + 'c list) list" where
  "observe_handbuilt w h S ops =
     (case Sentence_init w h S of
        (s, h') \<Rightarrow> client (\<lambda>h. Sentence_iter h s) SentenceIterator_next h' [] ops)"

definition observe_gen ::
  "('c \<Rightarrow> bool) \<Rightarrow> 'c gen_heap \<Rightarrow> 'c list \<Rightarrow> client_op list \<Rightarrow> (exn + 'c list) list" where
  "observe_gen w h S ops =
     (case Sentence_gen_init w h S of
        (s, h') \<Rightarrow> client (\<lambda>h. Sentence_gen_iter h s) gen_next h' [] ops)"

definition observe_genexp ::
  "('c \<Rightarrow> bool) \<Rightarrow> 'c genexp_heap \<Rightarrow> 'c list \<Rightarrow> client_op list \<Rightarrow> (exn + 'c list) list" where
  "observe_genexp w h S ops =
     (case Sentence_genexp_init w h S of
        (s, h') \<Rightarrow> client (\<lambda>h. Sentence_genexp_iter h s) genexp_next h' [] ops)"

section \<open>The class-construction hook \<open>DesNameMeta\<close> and the descriptor \<open>Field\<close>\<close>

text \<open>
  From the notebook of chapter 21:
  \<^verbatim>\<open>
  class Field:
      def __get__(self, instance, cls):
          if instance is None:
              return self
          name = self.__name__
          return instance._value_dict.get(name)
      def __set__(self, instance, val):
          name = self.__name__
          instance._value_dict[name] = val

  class DesNameMeta(type):
      @classmethod
      def __prepare__(cls, name, bases):
          return OrderedDict()
      def __init__(cls, name, bases, dic):
          field_names = []
          for name, val in dic.items():
              if isinstance(val, Field):
                  val.__name__ = name
                  field_names.append(name)
          cls._field_names = field_names
  \<close>
  The namespace \<open>dic\<close> of the class body is an ordered dictionary: a list of pairs of an
  attribute name and the object bound to it, in the order of declaration. An object is
  Python's \<^verbatim>\<open>None\<close> (\<open>NoneObj\<close>), a reference to an instance of \<open>Field\<close>
  (\<open>FieldObj\<close>), a reference to a dict (\<open>DictObj\<close>) or anything else (\<open>Other\<close>): an
  object that is no instance of \<open>Field\<close>, no data descriptor and no mapping.
  \<open>is_Field\<close> is \<^verbatim>\<open>isinstance(val, Field)\<close>. The only attribute of a \<open>Field\<close> instance
  is \<^verbatim>\<open>__name__\<close>, so the store \<open>fs\<close> of the \<open>Field\<close> instances maps a reference to
  that attribute, \<open>None\<close> while it is not set. \<open>DesNameMeta_loop\<close> is the \<^verbatim>\<open>for\<close>
  loop, with the store and \<^verbatim>\<open>field_names\<close> as its state; \<open>DesNameMeta_init\<close> returns
  the store and the list assigned to \<^verbatim>\<open>cls._field_names\<close>.

  The two methods of \<open>Field\<close> evaluate \<^verbatim>\<open>instance._value_dict\<close>, an attribute access
  on an instance of the constructed class. An instance has the namespace of its class
  (\<open>type_dict\<close>) and its own \<^verbatim>\<open>__dict__\<close> (\<open>obj_dict\<close>); the class has no base but
  \<^verbatim>\<open>object\<close> and keeps the attribute access of \<^verbatim>\<open>object\<close>. \<open>py_getattr\<close> is
  \<^verbatim>\<open>instance.attr\<close>: a \<open>Field\<close> that the class binds to \<open>attr\<close> is a data descriptor,
  and its \<^verbatim>\<open>__get__\<close> answers; otherwise the instance's own attribute is taken, then
  the class attribute, and without either the access raises \<^verbatim>\<open>AttributeError\<close>.
  \<open>py_setattr\<close> is \<^verbatim>\<open>instance.attr = val\<close>: a \<open>Field\<close> bound to \<open>attr\<close> by the class
  gets \<^verbatim>\<open>__set__\<close>, anything else is stored in the instance's \<^verbatim>\<open>__dict__\<close>.

  \<open>Field_get\<close> takes \<open>None\<close> for \<^verbatim>\<open>instance is None\<close> and then returns the descriptor
  itself; otherwise it reads \<^verbatim>\<open>self.__name__\<close> (\<^verbatim>\<open>AttributeError\<close> while it is not
  set), evaluates \<^verbatim>\<open>instance._value_dict\<close> and calls \<^verbatim>\<open>get\<close> on the result.
  \<open>Field_set\<close> does the same with an item assignment. The dicts live in a store \<open>ds\<close>
  from references to contents, which \<open>Field_set\<close> returns updated. \<open>dict_get\<close> is
  \<^verbatim>\<open>d.get(name)\<close>: \<^verbatim>\<open>None\<close> for a missing key, \<^verbatim>\<open>AttributeError\<close> for an object
  that is no dict. \<open>dict_setitem\<close> is \<^verbatim>\<open>d[name] = val\<close>: \<^verbatim>\<open>TypeError\<close> for an object
  that is no dict.

  When the class binds \<^verbatim>\<open>_value_dict\<close> itself to a \<open>Field\<close>, evaluating
  \<^verbatim>\<open>instance._value_dict\<close> calls \<^verbatim>\<open>Field.__get__\<close>, which evaluates it again, and so
  on until Python stops at its recursion limit. \<open>depth\<close> is the number of Python frames
  still available: every call of \<^verbatim>\<open>__get__\<close> or \<^verbatim>\<open>__set__\<close> takes one, and a call
  with none left raises \<^verbatim>\<open>RecursionError\<close>.
  \<open>bound_names dic r\<close> lists the attributes bound to the \<open>Field\<close> instance \<open>r\<close>.
\<close>

datatype 'v pyobj = NoneObj | FieldObj nat | DictObj nat | Other 'v




record 'v inst =
  type_dict :: "(string \<times> 'v pyobj) list"
  obj_dict :: "string \<rightharpoonup> 'v pyobj"

definition dict_get :: "(nat \<Rightarrow> string \<rightharpoonup> 'v pyobj) \<Rightarrow> 'v pyobj \<Rightarrow> string \<Rightarrow> exn + 'v pyobj" where
  "dict_get ds obj name =
     (case obj of
        DictObj d \<Rightarrow> Inr (case ds d name of None \<Rightarrow> NoneObj | Some v \<Rightarrow> v)
      | _ \<Rightarrow> Inl AttributeError)"

definition dict_setitem ::
  "(nat \<Rightarrow> string \<rightharpoonup> 'v pyobj) \<Rightarrow> 'v pyobj \<Rightarrow> string \<Rightarrow> 'v pyobj \<Rightarrow>
   exn + (nat \<Rightarrow> string \<rightharpoonup> 'v pyobj)" where
  "dict_setitem ds obj name val =
     (case obj of
        DictObj d \<Rightarrow> Inr (ds(d := (ds d)(name \<mapsto> val)))
      | _ \<Rightarrow> Inl TypeError)"

fun py_getattr ::
    "nat \<Rightarrow> (nat \<Rightarrow> string option) \<Rightarrow> (nat \<Rightarrow> string \<rightharpoonup> 'v pyobj) \<Rightarrow> 'v inst \<Rightarrow> string \<Rightarrow>
     exn + 'v pyobj"
  and Field_get ::
    "nat \<Rightarrow> (nat \<Rightarrow> string option) \<Rightarrow> (nat \<Rightarrow> string \<rightharpoonup> 'v pyobj) \<Rightarrow> nat \<Rightarrow>
     'v inst option \<Rightarrow> exn + 'v pyobj" where
  "py_getattr depth fs ds inst attr =
     (case map_of (type_dict inst) attr of
        Some (FieldObj f) \<Rightarrow> Field_get depth fs ds f (Some inst)
      | cls \<Rightarrow>
          (case obj_dict inst attr of
             Some v \<Rightarrow> Inr v
           | None \<Rightarrow> (case cls of Some v \<Rightarrow> Inr v | None \<Rightarrow> Inl AttributeError)))"
| "Field_get 0 fs ds self instance = Inl RecursionError"
| "Field_get (Suc depth) fs ds self instance =
     (case instance of
        None \<Rightarrow> Inr (FieldObj self)
      | Some inst \<Rightarrow>
          (case fs self of
             None \<Rightarrow> Inl AttributeError
           | Some name \<Rightarrow>
               (case py_getattr depth fs ds inst ''_value_dict'' of
                  Inl e \<Rightarrow> Inl e
                | Inr value_dict \<Rightarrow> dict_get ds value_dict name)))"

fun Field_set ::
  "nat \<Rightarrow> (nat \<Rightarrow> string option) \<Rightarrow> (nat \<Rightarrow> string \<rightharpoonup> 'v pyobj) \<Rightarrow> nat \<Rightarrow> 'v inst \<Rightarrow>
   'v pyobj \<Rightarrow> exn + (nat \<Rightarrow> string \<rightharpoonup> 'v pyobj)" where
  "Field_set 0 fs ds self inst val = Inl RecursionError"
| "Field_set (Suc depth) fs ds self inst val =
     (case fs self of
        None \<Rightarrow> Inl AttributeError
      | Some name \<Rightarrow>
          (case py_getattr depth fs ds inst ''_value_dict'' of
             Inl e \<Rightarrow> Inl e
           | Inr value_dict \<Rightarrow> dict_setitem ds value_dict name val))"

definition py_setattr ::
  "nat \<Rightarrow> (nat \<Rightarrow> string option) \<Rightarrow> (nat \<Rightarrow> string \<rightharpoonup> 'v pyobj) \<Rightarrow> 'v inst \<Rightarrow> string \<Rightarrow>
   'v pyobj \<Rightarrow> exn + (nat \<Rightarrow> string \<rightharpoonup> 'v pyobj) \<times> 'v inst" where
  "py_setattr depth fs ds inst attr val =
     (case map_of (type_dict inst) attr of
        Some (FieldObj f) \<Rightarrow>
          (case Field_set depth fs ds f inst val of
             Inl e \<Rightarrow> Inl e
           | Inr ds' \<Rightarrow> Inr (ds', inst))
      | _ \<Rightarrow> Inr (ds, inst\<lparr>obj_dict := (obj_dict inst)(attr \<mapsto> val)\<rparr>))"


declare py_getattr.simps [simp del]

section \<open>Relations between the implementations and the contract\<close>

text \<open>
  What a heap, the cursors \<open>cs\<close> a client holds and the positions \<open>ps\<close> of the
  contract have to do with each other, for each of the three implementations: the
  sequence is in the heap with its tokens, the cursors are different objects, and the
  \<open>j\<close>-th cursor stands at the \<open>j\<close>-th position. A \<open>SentenceIterator\<close> stands at its
  index. A generator of the second variant stands at zero before its first \<^verbatim>\<open>next\<close>,
  at the position of its list iterator while suspended, and at or past the end when
  finished. A generator of the third variant stands at \<open>p\<close> when its scanner has the
  matches from the \<open>p\<close>-th on still to find.
\<close>

definition handbuilt_rel ::
  "nat \<Rightarrow> nat \<Rightarrow> 'c list list \<Rightarrow> 'c heap \<Rightarrow> nat list \<Rightarrow> nat list \<Rightarrow> bool" where
  "handbuilt_rel s wr toks h cs ps \<longleftrightarrow>
     s < length (sentences h) \<and> Sentence.words (sentences h ! s) = wr \<and>
     wr < length (lists h) \<and> lists h ! wr = toks \<and>
     length cs = length ps \<and> distinct cs \<and>
     (\<forall>j<length cs. cs ! j < length (iterators h) \<and>
        iterators h ! (cs ! j) = \<lparr>words = wr, index = int (ps ! j)\<rparr>)"

definition gen_frame_rel :: "nat \<Rightarrow> nat \<Rightarrow> nat \<Rightarrow> gen_frame \<Rightarrow> nat \<Rightarrow> bool" where
  "gen_frame_rel s wr n f p =
     (case f of
        Created self \<Rightarrow> self = s \<and> p = 0
      | Suspended lr pos \<Rightarrow> lr = wr \<and> pos = p
      | Finished \<Rightarrow> n \<le> p)"

definition gen_rel ::
  "nat \<Rightarrow> nat \<Rightarrow> 'c list list \<Rightarrow> 'c gen_heap \<Rightarrow> nat list \<Rightarrow> nat list \<Rightarrow> bool" where
  "gen_rel s wr toks h cs ps \<longleftrightarrow>
     s < length (gen_sentences h) \<and> Sentence.words (gen_sentences h ! s) = wr \<and>
     wr < length (gen_lists h) \<and> gen_lists h ! wr = toks \<and>
     length cs = length ps \<and> distinct cs \<and>
     (\<forall>j<length cs. cs ! j < length (generators h) \<and>
        gen_frame_rel s wr (length toks) (generators h ! (cs ! j)) (ps ! j))"

definition genexp_frame_rel ::
  "('c \<Rightarrow> bool) \<Rightarrow> 'c list \<Rightarrow> 'c genexp_frame \<Rightarrow> nat \<Rightarrow> bool" where
  "genexp_frame_rel w S f p =
     (case f of
        Scanning w' s pos \<Rightarrow> w' = w \<and> s = S \<and> finditer w S pos = drop p (finditer w S 0)
      | Done \<Rightarrow> length (finditer w S 0) \<le> p)"

definition genexp_rel ::
  "('c \<Rightarrow> bool) \<Rightarrow> 'c list \<Rightarrow> nat \<Rightarrow> 'c genexp_heap \<Rightarrow> nat list \<Rightarrow> nat list \<Rightarrow> bool" where
  "genexp_rel w S s h cs ps \<longleftrightarrow>
     s < length (genexp_sentences h) \<and> genexp_sentences h ! s = \<lparr>re_word = w, sentence = S\<rparr> \<and>
     length cs = length ps \<and> distinct cs \<and>
     (\<forall>j<length cs. cs ! j < length (genexps h) \<and>
        genexp_frame_rel w S (genexps h ! (cs ! j)) (ps ! j))"

section \<open>The scanner finds the maximal runs\<close>

lemma match_end_run:
  assumes "i < length s" and "w (s ! i)"
  shows "is_run w s i (match_end w s i)"
    and "match_end w s i = length s \<or> \<not> w (s ! match_end w s i)"
proof -
  let ?t = "takeWhile w (drop i s)"
  from assms have d: "drop i s = s ! i # drop (Suc i) s"
    by (simp add: Cons_nth_drop_Suc)
  with assms have pos: "0 < length ?t" by simp
  have le: "length ?t \<le> length (drop i s)" by (rule length_takeWhile_le)
  have "w (s ! k)" if "k \<in> {i..<match_end w s i}" for k
  proof -
    from that have k: "k - i < length ?t" "i \<le> k" by (auto simp: match_end_def)
    then have "?t ! (k - i) = drop i s ! (k - i)" by (simp add: takeWhile_nth)
    also have "\<dots> = s ! k" using k le by simp
    finally have "s ! k \<in> set ?t" using k(1) by (metis nth_mem)
    then show ?thesis by (rule set_takeWhileD [THEN conjunct2])
  qed
  with pos le assms(1) show "is_run w s i (match_end w s i)"
    by (auto simp: is_run_def match_end_def)
  show "match_end w s i = length s \<or> \<not> w (s ! match_end w s i)"
  proof (cases "length ?t < length (drop i s)")
    case True
    then have "\<not> w (drop i s ! length ?t)" by (rule nth_length_takeWhile)
    moreover have "drop i s ! length ?t = s ! (i + length ?t)"
      using True by simp
    ultimately show ?thesis by (simp add: match_end_def)
  next
    case False
    with le assms show ?thesis by (simp add: match_end_def)
  qed
qed

lemma match_end_unique:
  assumes "is_run w s i j" and "j = length s \<or> \<not> w (s ! j)"
  shows "j = match_end w s i"
proof -
  from assms(1) have ij: "i < j" "j \<le> length s" and all: "\<And>k. i \<le> k \<Longrightarrow> k < j \<Longrightarrow> w (s ! k)"
    by (auto simp: is_run_def)
  have "takeWhile w (drop i s) = take (j - i) (drop i s)"
  proof (rule takeWhile_eq_take_P_nth)
    fix k assume "k < j - i" "k < length (drop i s)"
    then show "w (drop i s ! k)" using all [of "i + k"] ij by simp
  next
    assume "j - i < length (drop i s)"
    then have "j < length s" using ij by simp
    with assms(2) have "\<not> w (s ! j)" by simp
    then show "\<not> w (drop i s ! (j - i))" using ij by simp
  qed
  then have "length (takeWhile w (drop i s)) = j - i"
    using ij by simp
  then show ?thesis using ij by (simp add: match_end_def)
qed

lemma is_maximal_run_iff:
  "is_maximal_run w s i j \<longleftrightarrow> run_start w s i \<and> j = match_end w s i"
proof
  assume m: "is_maximal_run w s i j"
  then have "j = match_end w s i"
    by (auto simp: is_maximal_run_def intro: match_end_unique)
  moreover from m have "run_start w s i"
    by (auto simp: is_maximal_run_def is_run_def run_start_def)
  ultimately show "run_start w s i \<and> j = match_end w s i" by simp
next
  assume "run_start w s i \<and> j = match_end w s i"
  then show "is_maximal_run w s i j"
    using match_end_run [of i s w]
    by (auto simp: is_maximal_run_def run_start_def)
qed

lemma upt_split: "i \<le> j \<Longrightarrow> j \<le> k \<Longrightarrow> [i..<k] = [i..<j] @ [j..<k]"
  using upt_add_eq_append [of i j "k - j"] by simp

lemma upt_split_at: "i \<le> j \<Longrightarrow> j < k \<Longrightarrow> [i..<k] = [i..<j] @ j # [Suc j..<k]"
  using upt_split [of i j k] by (simp add: upt_conv_Cons)

lemma filter_upt_single:
  assumes "a \<le> e" and "e < b"
  shows "filter (\<lambda>j. j = e) [a..<b] = [e]"
proof -
  have "[a..<b] = [a..<e] @ e # [Suc e..<b]"
    using assms by (rule upt_split_at)
  then show ?thesis by (simp add: filter_empty_conv)
qed

lemma concat_map_if:
  "concat (map (\<lambda>x. if P x then [f x] else []) xs) = map f (filter P xs)"
  by (induction xs) auto

lemma maximal_runs_starts:
  "maximal_runs w s =
     map (\<lambda>i. (i, match_end w s i)) (filter (run_start w s) [0..<length s])"
proof -
  have inner: "concat (map (\<lambda>j. if is_maximal_run w s i j then [(i, j)] else []) [Suc i..<Suc (length s)])
        = (if run_start w s i then [(i, match_end w s i)] else [])" for i
  proof (cases "run_start w s i")
    case False
    then show ?thesis by (simp add: is_maximal_run_iff)
  next
    case True
    then have "is_run w s i (match_end w s i)"
      by (auto simp: run_start_def intro: match_end_run)
    then have b: "Suc i \<le> match_end w s i" "match_end w s i < Suc (length s)"
      by (auto simp: is_run_def)
    have "concat (map (\<lambda>j. if is_maximal_run w s i j then [(i, j)] else []) [Suc i..<Suc (length s)])
        = map (Pair i) (filter (\<lambda>j. j = match_end w s i) [Suc i..<Suc (length s)])"
      using True unfolding is_maximal_run_iff by (simp only: simp_thms concat_map_if)
    also have "\<dots> = [(i, match_end w s i)]"
      using b by (simp only: filter_upt_single) simp
    finally show ?thesis using True by simp
  qed
  show ?thesis
    unfolding maximal_runs_def inner by (simp only: concat_map_if)
qed

lemma search_Some:
  "search w s pos = Some (b, e) \<Longrightarrow>
     pos \<le> b \<and> b < length s \<and> w (s ! b) \<and> (\<forall>k. pos \<le> k \<and> k < b \<longrightarrow> \<not> w (s ! k)) \<and>
     e = match_end w s b"
proof (induction w s pos rule: search.induct)
  case (1 w s pos)
  show ?case
  proof (cases "length s \<le> pos \<or> w (s ! pos)")
    case True
    with "1.prems" show ?thesis
      by (auto simp: search.simps [of w s pos] split: if_splits)
  next
    case False
    with "1.prems" have "search w s (Suc pos) = Some (b, e)"
      by (simp add: search.simps [of w s pos])
    with "1.IH" False have
      "Suc pos \<le> b \<and> b < length s \<and> w (s ! b) \<and> (\<forall>k. Suc pos \<le> k \<and> k < b \<longrightarrow> \<not> w (s ! k)) \<and>
       e = match_end w s b" by simp
    then have ih: "Suc pos \<le> b" "b < length s" "w (s ! b)"
      "\<And>k. Suc pos \<le> k \<Longrightarrow> k < b \<Longrightarrow> \<not> w (s ! k)" "e = match_end w s b"
      by auto
    have "\<not> w (s ! k)" if "pos \<le> k" "k < b" for k
    proof (cases "k = pos")
      case True
      with False show ?thesis by simp
    next
      case False
      with that have "Suc pos \<le> k" by simp
      then show ?thesis using that(2) by (rule ih(4))
    qed
    with ih show ?thesis by simp
  qed
qed

lemma search_None:
  "search w s pos = None \<Longrightarrow> pos \<le> k \<Longrightarrow> k < length s \<Longrightarrow> \<not> w (s ! k)"
proof (induction w s pos rule: search.induct)
  case (1 w s pos)
  from "1.prems" have here: "\<not> length s \<le> pos" "\<not> w (s ! pos)"
    and rest: "search w s (Suc pos) = None"
    by (auto simp: search.simps [of w s pos] split: if_splits)
  show ?case
  proof (cases "k = pos")
    case True
    with here show ?thesis by simp
  next
    case False
    with "1.prems" have "Suc pos \<le> k" by simp
    with "1.IH" here rest "1.prems" show ?thesis by simp
  qed
qed

lemma finditer_starts:
  "pos = 0 \<or> length s \<le> pos \<or> \<not> w (s ! (pos - 1)) \<or> \<not> w (s ! pos) \<Longrightarrow>
   finditer w s pos =
     map (\<lambda>i. (i, match_end w s i)) (filter (run_start w s) [pos..<length s])"
proof (induction w s pos rule: finditer.induct)
  case (1 w s pos)
  show ?case
  proof (cases "search w s pos")
    case None
    then have "\<not> run_start w s k" if "pos \<le> k" for k
      using that search_None [of w s pos k] by (auto simp: run_start_def)
    then have "filter (run_start w s) [pos..<length s] = []"
      by (simp add: filter_empty_conv)
    with None show ?thesis by (simp add: finditer.simps [of w s pos])
  next
    case (Some m)
    obtain b e where m: "m = (b, e)" by (cases m)
    from Some m have sb: "pos \<le> b" "b < length s" "w (s ! b)"
      "\<And>k. pos \<le> k \<Longrightarrow> k < b \<Longrightarrow> \<not> w (s ! k)" "e = match_end w s b"
      using search_Some [of w s pos b e] by auto
    from match_end_run [of b s w] sb(2,3,5)
    have run: "is_run w s b e" and stop: "e = length s \<or> \<not> w (s ! e)" by simp_all
    from run have be: "b < e" "e \<le> length s" and inside: "\<And>k. b \<le> k \<Longrightarrow> k < e \<Longrightarrow> w (s ! k)"
      by (auto simp: is_run_def)
    have start: "run_start w s b"
    proof (cases "b = pos")
      case True
      with "1.prems" sb show ?thesis by (auto simp: run_start_def)
    next
      case False
      with sb(1) have "pos \<le> b - 1" "b - 1 < b" by auto
      then have "\<not> w (s ! (b - 1))" by (rule sb(4))
      with sb show ?thesis by (simp add: run_start_def)
    qed
    have split: "[pos..<length s] = [pos..<b] @ b # [Suc b..<e] @ [e..<length s]"
    proof -
      have "[pos..<length s] = [pos..<e] @ [e..<length s]"
        using sb(1) be by (intro upt_split) auto
      moreover have "[pos..<e] = [pos..<b] @ b # [Suc b..<e]"
        using sb(1) be by (intro upt_split_at) auto
      ultimately show ?thesis by simp
    qed
    have before: "filter (run_start w s) [pos..<b] = []"
      using sb(4) by (auto simp: filter_empty_conv run_start_def)
    have within: "filter (run_start w s) [Suc b..<e] = []"
    proof -
      have "\<not> run_start w s k" if "Suc b \<le> k" "k < e" for k
        using that inside [of "k - 1"] by (auto simp: run_start_def)
      then show ?thesis by (auto simp: filter_empty_conv)
    qed
    have "finditer w s e =
            map (\<lambda>i. (i, match_end w s i)) (filter (run_start w s) [e..<length s])"
      using Some m stop by (intro "1.IH") auto
    moreover have "filter (run_start w s) [pos..<length s] =
        b # filter (run_start w s) [e..<length s]"
      by (subst split) (simp add: before within start)
    ultimately show ?thesis
      using Some m sb(5) by (simp add: finditer.simps [of w s pos])
  qed
qed

lemma finditer_maximal_runs: "finditer w s 0 = maximal_runs w s"
  by (simp add: finditer_starts maximal_runs_starts)

section \<open>Advancing and draining a \<open>SentenceIterator\<close>\<close>

lemma getitem_in_range: "i < length xs \<Longrightarrow> getitem xs (int i) = Inr (xs ! i)"
  by (simp add: getitem_def)

lemma getitem_past_end: "length xs \<le> i \<Longrightarrow> getitem xs (int i) = Inl IndexError"
  by (simp add: getitem_def)

lemma next_in_range:
  assumes "self < length (iterators h)"
    and "iterators h ! self = \<lparr>words = wr, index = int i\<rparr>"
    and "wr < length (lists h)"
    and "i < length (lists h ! wr)"
  shows "SentenceIterator_next h self =
           (Inr (lists h ! wr ! i),
            h\<lparr>iterators := (iterators h)[self := \<lparr>words = wr, index = int (Suc i)\<rparr>]\<rparr>)"
  using assms by (simp add: SentenceIterator_next_def getitem_in_range add.commute)

lemma next_past_end:
  assumes "self < length (iterators h)"
    and "iterators h ! self = \<lparr>words = wr, index = int i\<rparr>"
    and "wr < length (lists h)"
    and "length (lists h ! wr) \<le> i"
  shows "SentenceIterator_next h self = (Inl StopIteration, h)"
  using assms by (simp add: SentenceIterator_next_def getitem_past_end)

lemma drain_from:
  assumes "it < length (iterators h)"
    and "iterators h ! it = \<lparr>words = wr, index = int i\<rparr>"
    and "wr < length (lists h)"
    and "i \<le> length (lists h ! wr)"
    and "length (lists h ! wr) - i < fuel"
  shows "drain fuel h it =
           Some (Inr (drop i (lists h ! wr)),
                 h\<lparr>iterators := (iterators h)[it := \<lparr>words = wr, index = int (length (lists h ! wr))\<rparr>]\<rparr>)"
  using assms
proof (induction fuel arbitrary: h i)
  case 0
  then show ?case by simp
next
  case (Suc fuel)
  show ?case
  proof (cases "i < length (lists h ! wr)")
    case True
    let ?h = "h\<lparr>iterators := (iterators h)[it := \<lparr>words = wr, index = int (Suc i)\<rparr>]\<rparr>"
    have step: "SentenceIterator_next h it = (Inr (lists h ! wr ! i), ?h)"
      using Suc.prems True by (intro next_in_range) auto
    have "drain fuel ?h it =
            Some (Inr (drop (Suc i) (lists ?h ! wr)),
                  ?h\<lparr>iterators := (iterators ?h)[it := \<lparr>words = wr, index = int (length (lists ?h ! wr))\<rparr>]\<rparr>)"
      using Suc.prems True by (intro Suc.IH) auto
    with step True show ?thesis
      by (simp add: Cons_nth_drop_Suc)
  next
    case False
    with Suc.prems have i: "i = length (lists h ! wr)" by simp
    have "SentenceIterator_next h it = (Inl StopIteration, h)"
      using Suc.prems i by (intro next_past_end) auto
    moreover have "h\<lparr>iterators := (iterators h)[it := \<lparr>words = wr, index = int (length (lists h ! wr))\<rparr>]\<rparr> = h"
      using Suc.prems i by (simp add: list_update_same_conv)
    ultimately show ?thesis using i by simp
  qed
qed

lemma for_loop_Sentence:
  assumes "Sentence_init w h s = (r, h')" and "length (findall w s) < fuel"
  shows "for_loop fuel h' r =
           Some (Inr (findall w s),
                 h'\<lparr>iterators := iterators h' @
                    [\<lparr>words = length (lists h), index = int (length (findall w s))\<rparr>]\<rparr>)"
proof -
  from assms(1) have r: "r = length (sentences h)"
    and h': "h' = h\<lparr>lists := lists h @ [findall w s],
        sentences := sentences h @ [\<lparr>Sentence.sentence = s, words = length (lists h)\<rparr>]\<rparr>"
    by (auto simp: Sentence_init_def)
  let ?h = "h'\<lparr>iterators := iterators h' @ [\<lparr>words = length (lists h), index = 0\<rparr>]\<rparr>"
  have it: "Sentence_iter h' r = (Inr (length (iterators h')), ?h)"
    by (simp add: Sentence_iter_def SentenceIterator_init_def r h')
  have "drain fuel ?h (length (iterators h')) =
          Some (Inr (drop 0 (lists ?h ! length (lists h))),
                ?h\<lparr>iterators := (iterators ?h)[length (iterators h') :=
                   \<lparr>words = length (lists h), index = int (length (lists ?h ! length (lists h)))\<rparr>]\<rparr>)"
    using assms(2) by (intro drain_from) (auto simp: h')
  then show ?thesis
    unfolding for_loop_def it by (simp add: h')
qed

lemma maximal_runs_ordered: "sorted_wrt (<) (map fst (maximal_runs w s))"
proof -
  have "map fst (maximal_runs w s) = filter (run_start w s) [0..<length s]"
    by (simp add: maximal_runs_starts comp_def)
  moreover have "sorted_wrt (<) (filter (run_start w s) [0..<length s])"
    by (intro sorted_wrt_filter) simp
  ultimately show ?thesis by simp
qed

lemma runs_example: "maximal_runs ascii_word ''a-b'' = [(0, 1), (2, 3)]"
  by code_simp

section \<open>One traversal of a \<open>Sentence\<close>\<close>

text \<open>
  Claim C1. For every input string \<open>S\<close>, one full traversal of \<open>Sentence(S)\<close> (the
  \<^verbatim>\<open>for\<close> loop, with more fuel than there are runs) ends and yields as many tokens as
  \<open>S\<close> has maximal runs of word characters; the tokens are the substrings of the runs,
  in the order the runs occur in \<open>S\<close>.
\<close>

theorem traversal_yields_maximal_runs:
  assumes "Sentence_init w h S = (r, h')"
    and "length (maximal_runs w S) < fuel"
  shows "\<exists>toks h''. for_loop fuel h' r = Some (Inr toks, h'') \<and>
           length toks = length (maximal_runs w S) \<and>
           toks = map (group S) (maximal_runs w S) \<and>
           sorted_wrt (<) (map fst (maximal_runs w S))"
proof -
  have toks: "findall w S = map (group S) (maximal_runs w S)"
    by (simp add: findall_def finditer_maximal_runs)
  with assms(2) have "length (findall w S) < fuel" by simp
  from for_loop_Sentence [OF assms(1) this] toks maximal_runs_ordered [of w S]
  show ?thesis by simp
qed

theorem traversal_yields_maximal_runs_witness:
  "Sentence_init ascii_word empty_heap ''a-b'' =
     (0, \<lparr>lists = [[''a'', ''b'']], sentences = [\<lparr>Sentence.sentence = ''a-b'', words = 0\<rparr>], iterators = []\<rparr>) \<and>
   length (maximal_runs ascii_word ''a-b'') < 3 \<and>
   (\<exists>h''. for_loop 3 \<lparr>lists = [[''a'', ''b'']], sentences = [\<lparr>Sentence.sentence = ''a-b'', words = 0\<rparr>],
                      iterators = []\<rparr> 0 = Some (Inr [''a'', ''b''], h''))"
proof -
  have init: "Sentence_init ascii_word empty_heap ''a-b'' =
     (0, \<lparr>lists = [[''a'', ''b'']], sentences = [\<lparr>Sentence.sentence = ''a-b'', words = 0\<rparr>], iterators = []\<rparr>)"
    by (simp add: Sentence_init_def empty_heap_def findall_def finditer_maximal_runs
        runs_example group_def)
  have fuel: "length (maximal_runs ascii_word ''a-b'') < 3"
    by (simp add: runs_example)
  from traversal_yields_maximal_runs [OF init fuel] init fuel show ?thesis
    by (simp add: runs_example group_def)
qed

lemma scenario_tokens:
  "findall ascii_word ''Return a list of all non-overlapping matches in the string.'' =
     [''Return'', ''a'', ''list'', ''of'', ''all'', ''non'', ''overlapping'', ''matches'',
      ''in'', ''the'', ''string'']"
  by code_simp

text \<open>
  Claim C5. For the sentence of the notebook the traversal yields exactly the eleven
  tokens \<open>Return, a, list, of, all, non, overlapping, matches, in, the, string\<close>, in
  that order, from any heap and with any fuel from twelve on; every token consists of
  word characters only, which the hyphen, the full stop and the space are not.
\<close>

theorem scenario_eleven_tokens:
  "map_option fst
     (for_loop (12 + k)
        (snd (Sentence_init ascii_word h
                ''Return a list of all non-overlapping matches in the string.''))
        (fst (Sentence_init ascii_word h
                ''Return a list of all non-overlapping matches in the string.''))) =
     Some (Inr [''Return'', ''a'', ''list'', ''of'', ''all'', ''non'', ''overlapping'', ''matches'',
                ''in'', ''the'', ''string'']) \<and>
   length (findall ascii_word ''Return a list of all non-overlapping matches in the string.'') = 11 \<and>
   list_all (list_all ascii_word)
     (findall ascii_word ''Return a list of all non-overlapping matches in the string.'') \<and>
   \<not> ascii_word (CHR ''-'') \<and> \<not> ascii_word (CHR ''.'') \<and> \<not> ascii_word (CHR '' '')"
proof -
  let ?S = "''Return a list of all non-overlapping matches in the string.''"
  have "length (findall ascii_word ?S) < 12 + k"
    by (simp add: scenario_tokens)
  from for_loop_Sentence [OF prod.collapse [symmetric] this]
  have "map_option fst (for_loop (12 + k) (snd (Sentence_init ascii_word h ?S))
          (fst (Sentence_init ascii_word h ?S))) = Some (Inr (findall ascii_word ?S))"
    by simp
  moreover have "list_all (list_all ascii_word) (findall ascii_word ?S)"
    unfolding scenario_tokens by code_simp
  moreover have "\<not> ascii_word (CHR ''-'')" "\<not> ascii_word (CHR ''.'')" "\<not> ascii_word (CHR '' '')"
    by (simp_all add: ascii_word_def)
  ultimately show ?thesis by (simp add: scenario_tokens)
qed

section \<open>Cursors over a \<open>Sentence\<close>\<close>

lemma example_heap_eq:
  "example_heap =
     \<lparr>lists = [[''a'', ''b'']], sentences = [\<lparr>Sentence.sentence = ''a-b'', words = 0\<rparr>], iterators = []\<rparr>"
  by (simp add: example_heap_def Sentence_init_def empty_heap_def findall_def
      finditer_maximal_runs runs_example group_def)

lemmas run_defs =
  Sentence_iter_def SentenceIterator_init_def SentenceIterator_next_def SentenceIterator_iter_def
  getitem_def execs_def Let_def for_loop_def

subsection \<open>What a call leaves unchanged\<close>

lemma next_cases:
  "SentenceIterator_next h it = (Inl InvalidReference, h) \<or>
   SentenceIterator_next h it = (Inl StopIteration, h) \<or>
   (\<exists>word. SentenceIterator_next h it =
      (Inr word, h\<lparr>iterators := (iterators h)[it := (iterators h ! it)\<lparr>index := index (iterators h ! it) + 1\<rparr>]\<rparr>))"
  by (auto simp: SentenceIterator_next_def getitem_def Let_def)

lemma next_frame:
  "lists (snd (SentenceIterator_next h it)) = lists h"
  "sentences (snd (SentenceIterator_next h it)) = sentences h"
  "length (iterators (snd (SentenceIterator_next h it))) = length (iterators h)"
  "c \<noteq> it \<Longrightarrow> iterators (snd (SentenceIterator_next h it)) ! c = iterators h ! c"
  using next_cases [of h it]
  by (auto simp: nth_list_update)

lemma next_words:
  "c < length (iterators h) \<Longrightarrow>
     SentenceIterator.words (iterators (snd (SentenceIterator_next h it)) ! c) =
     SentenceIterator.words (iterators h ! c)"
  using next_cases [of h it]
  by (cases "c = it") auto

lemma iter_frame:
  "lists (snd (Sentence_iter h s)) = lists h"
  "sentences (snd (Sentence_iter h s)) = sentences h"
  "length (iterators h) \<le> length (iterators (snd (Sentence_iter h s)))"
  "c < length (iterators h) \<Longrightarrow> iterators (snd (Sentence_iter h s)) ! c = iterators h ! c"
  by (auto simp: Sentence_iter_def SentenceIterator_init_def nth_append)

lemma exec_frame:
  "lists (exec h c) = lists h"
  "sentences (exec h c) = sentences h"
  "length (iterators h) \<le> length (iterators (exec h c))"
  by (cases c; simp add: next_frame iter_frame SentenceIterator_iter_def)+

lemma exec_other:
  "it < length (iterators h) \<Longrightarrow> Next it \<noteq> c \<Longrightarrow> iterators (exec h c) ! it = iterators h ! it"
  by (cases c) (auto simp: next_frame iter_frame SentenceIterator_iter_def)

lemma execs_Nil [simp]: "execs h [] = h"
  by (simp add: execs_def)

lemma execs_Cons [simp]: "execs h (c # cs) = execs (exec h c) cs"
  by (simp add: execs_def)

lemma execs_frame:
  "lists (execs h cs) = lists h"
  "sentences (execs h cs) = sentences h"
  "length (iterators h) \<le> length (iterators (execs h cs))"
proof (induction cs arbitrary: h)
  case Nil
  { case 1 show ?case by simp }
  { case 2 show ?case by simp }
  { case 3 show ?case by simp }
next
  case (Cons c cs)
  { case 1 show ?case by (simp add: Cons.IH exec_frame) }
  { case 2 show ?case by (simp add: Cons.IH exec_frame) }
  { case 3 show ?case using Cons.IH(3) [of "exec h c"] exec_frame(3) [of h c] by simp }
qed

lemma execs_other:
  "it < length (iterators h) \<Longrightarrow> Next it \<notin> set cs \<Longrightarrow>
   iterators (execs h cs) ! it = iterators h ! it"
proof (induction cs arbitrary: h)
  case Nil
  then show ?case by simp
next
  case (Cons c cs)
  from Cons.prems have "it < length (iterators (exec h c))"
    using exec_frame(3) [of h c] by simp
  with Cons show ?case by (simp add: exec_other)
qed

lemma next_depends:
  assumes "lists h' = lists h" and "iterators h' ! it = iterators h ! it"
    and "it < length (iterators h)" and "it < length (iterators h')"
  shows "fst (SentenceIterator_next h' it) = fst (SentenceIterator_next h it)"
  using assms by (simp add: SentenceIterator_next_def Let_def split: sum.splits exn.splits)

lemma iter_fresh:
  assumes "s < length (sentences h)"
  shows "Sentence_iter h s =
           (Inr (length (iterators h)),
            h\<lparr>iterators := iterators h @
               [\<lparr>words = Sentence.words (sentences h ! s), index = 0\<rparr>]\<rparr>)"
  using assms by (simp add: Sentence_iter_def SentenceIterator_init_def)

lemma drain_fresh:
  assumes "it < length (iterators h)"
    and "iterators h ! it = \<lparr>words = wr, index = 0\<rparr>"
    and "wr < length (lists h)"
    and "length (lists h ! wr) < fuel"
  shows "map_option fst (drain fuel h it) = Some (Inr (lists h ! wr))"
  using drain_from [of it h wr 0 fuel] assms by simp

subsection \<open>Stopped cursors stay stopped\<close>

lemma next_stop_unchanged:
  "fst (SentenceIterator_next h it) = Inl StopIteration \<Longrightarrow>
   snd (SentenceIterator_next h it) = h \<and> it < length (iterators h)"
  by (auto simp: SentenceIterator_next_def Let_def split: sum.splits exn.splits if_splits)

lemma exec_keeps_stop:
  assumes "fst (SentenceIterator_next h it) = Inl StopIteration"
  shows "fst (SentenceIterator_next (exec h c) it) = Inl StopIteration"
proof (cases "c = Next it")
  case True
  with assms show ?thesis by (simp add: next_stop_unchanged)
next
  case False
  from assms have it: "it < length (iterators h)" by (simp add: next_stop_unchanged)
  then have "it < length (iterators (exec h c))"
    using exec_frame(3) [of h c] by simp
  moreover have "iterators (exec h c) ! it = iterators h ! it"
    using it False by (intro exec_other) auto
  ultimately have "fst (SentenceIterator_next (exec h c) it) = fst (SentenceIterator_next h it)"
    using it by (intro next_depends) (simp_all add: exec_frame)
  with assms show ?thesis by simp
qed

lemma execs_keep_stop:
  "fst (SentenceIterator_next h it) = Inl StopIteration \<Longrightarrow>
   fst (SentenceIterator_next (execs h cs) it) = Inl StopIteration"
  by (induction cs arbitrary: h) (simp_all add: exec_keeps_stop)

text \<open>
  Claim C4. Once an advance of a cursor has signalled \<^verbatim>\<open>StopIteration\<close>, the heap is
  as it was before that call, and after any further calls whatever (advances of this or
  of other cursors, new traversals) an advance of the cursor signals \<^verbatim>\<open>StopIteration\<close>
  again: it returns no token and raises no other exception. In particular any number of
  repeated advances of the cursor all signal \<^verbatim>\<open>StopIteration\<close> and leave the heap
  unchanged.
\<close>

theorem exhausted_cursor_keeps_signalling:
  assumes "SentenceIterator_next h it = (Inl StopIteration, h')"
  shows "h' = h \<and>
         (\<forall>calls. fst (SentenceIterator_next (execs h' calls) it) = Inl StopIteration) \<and>
         (\<forall>k. SentenceIterator_next (execs h' (replicate k (Next it))) it = (Inl StopIteration, h))"
proof -
  from assms have stop: "fst (SentenceIterator_next h it) = Inl StopIteration" by simp
  with assms have h': "h' = h" using next_stop_unchanged [of h it] by simp
  have all: "fst (SentenceIterator_next (execs h calls) it) = Inl StopIteration" for calls
    using stop by (rule execs_keep_stop)
  have same: "execs h (replicate k (Next it)) = h" for k
    using stop by (induction k) (simp_all add: next_stop_unchanged)
  have "SentenceIterator_next (execs h (replicate k (Next it))) it = (Inl StopIteration, h)" for k
    using assms h' by (simp add: same)
  with h' all show ?thesis by simp
qed

theorem exhausted_cursor_keeps_signalling_witness:
  "SentenceIterator_next (example_heap\<lparr>iterators := [\<lparr>words = 0, index = 2\<rparr>]\<rparr>) 0 =
     (Inl StopIteration, example_heap\<lparr>iterators := [\<lparr>words = 0, index = 2\<rparr>]\<rparr>) \<and>
   fst (SentenceIterator_next
     (execs (example_heap\<lparr>iterators := [\<lparr>words = 0, index = 2\<rparr>]\<rparr>)
        [Next 0, IterSentence 0, Next 1, IterCursor 0, Next 0]) 0) = Inl StopIteration"
proof -
  let ?h = "example_heap\<lparr>iterators := [\<lparr>words = 0, index = 2\<rparr>]\<rparr>"
  have stop: "SentenceIterator_next ?h 0 = (Inl StopIteration, ?h)"
    by (simp add: example_heap_eq run_defs)
  from exhausted_cursor_keeps_signalling [OF stop]
  have "fst (SentenceIterator_next
     (execs ?h [Next 0, IterSentence 0, Next 1, IterCursor 0, Next 0]) 0) = Inl StopIteration"
    by blast
  with stop show ?thesis by (intro conjI)
qed

subsection \<open>Calls leave every \<open>Sentence\<close> alone\<close>

text \<open>
  Claim C8. No sequence of calls (beginning traversals, advancing cursors, asking a
  cursor for an iterator) changes a \<open>Sentence\<close> object or a list object: the source
  string and the token list of every \<open>Sentence\<close> are after the calls what they were
  before.
\<close>

theorem traversal_leaves_sentence_unchanged:
  "sentences (execs h calls) = sentences h \<and> lists (execs h calls) = lists h \<and>
   Sentence.sentence (sentences (execs h calls) ! s) = Sentence.sentence (sentences h ! s) \<and>
   lists (execs h calls) ! Sentence.words (sentences (execs h calls) ! s) =
     lists h ! Sentence.words (sentences h ! s)"
  by (simp add: execs_frame)

subsection \<open>\<open>iter\<close> on a cursor\<close>

text \<open>
  Claim C10. \<^verbatim>\<open>iter\<close> on a cursor returns that same cursor and leaves the heap as it
  is, so advancing the result is advancing the original cursor; a traversal request to a
  \<open>Sentence\<close>, by contrast, never returns an existing cursor.
\<close>

theorem iter_of_cursor_is_the_cursor:
  assumes "it < length (iterators h)"
  shows "SentenceIterator_iter h it = (Inr it, h) \<and>
         (\<forall>it'. fst (SentenceIterator_iter h it) = Inr it' \<longrightarrow>
            SentenceIterator_next (snd (SentenceIterator_iter h it)) it' =
              SentenceIterator_next h it) \<and>
         (\<forall>s. s < length (sentences h) \<longrightarrow> fst (Sentence_iter h s) \<noteq> Inr it)"
  using assms by (simp add: SentenceIterator_iter_def iter_fresh)

theorem iter_of_cursor_is_the_cursor_witness:
  "0 < length (iterators (example_heap\<lparr>iterators := [\<lparr>words = 0, index = 1\<rparr>]\<rparr>)) \<and>
   SentenceIterator_iter (example_heap\<lparr>iterators := [\<lparr>words = 0, index = 1\<rparr>]\<rparr>) 0 =
     (Inr 0, example_heap\<lparr>iterators := [\<lparr>words = 0, index = 1\<rparr>]\<rparr>) \<and>
   fst (Sentence_iter (example_heap\<lparr>iterators := [\<lparr>words = 0, index = 1\<rparr>]\<rparr>) 0) \<noteq> Inr 0"
proof -
  let ?h = "example_heap\<lparr>iterators := [\<lparr>words = 0, index = 1\<rparr>]\<rparr>"
  have it: "0 < length (iterators ?h)" by simp
  have s: "0 < length (sentences ?h)" by (simp add: example_heap_eq)
  from iter_of_cursor_is_the_cursor [OF it] it s show ?thesis by blast
qed

subsection \<open>The cursor as a state machine\<close>

lemma tracks_step:
  assumes "tracks h it toks a"
  shows "\<exists>a'. transition toks a (fst (SentenceIterator_next h it)) a' \<and>
              tracks (snd (SentenceIterator_next h it)) it toks a'"
proof -
  let ?wr = "SentenceIterator.words (iterators h ! it)"
  from assms have rd: "it < length (iterators h)" "?wr < length (lists h)" "lists h ! ?wr = toks"
    by (auto simp: tracks_def reads_def)
  show ?thesis
  proof (cases a)
    case (Active i)
    with assms have idx: "index (iterators h ! it) = int i" and i: "i \<le> length toks"
      by (auto simp: tracks_def)
    then have obj: "iterators h ! it = \<lparr>words = ?wr, index = int i\<rparr>" by simp
    show ?thesis
    proof (cases "i < length toks")
      case True
      with rd obj have "SentenceIterator_next h it =
          (Inr (lists h ! ?wr ! i),
           h\<lparr>iterators := (iterators h)[it := \<lparr>words = ?wr, index = int (Suc i)\<rparr>]\<rparr>)"
        by (intro next_in_range) auto
      with rd True Active have
        "transition toks a (fst (SentenceIterator_next h it)) (Active (Suc i)) \<and>
         tracks (snd (SentenceIterator_next h it)) it toks (Active (Suc i))"
        by (simp add: transition_def tracks_def reads_def)
      then show ?thesis ..
    next
      case False
      with i have eq: "i = length toks" by simp
      with rd obj have "SentenceIterator_next h it = (Inl StopIteration, h)"
        by (intro next_past_end) auto
      with rd eq idx Active have
        "transition toks a (fst (SentenceIterator_next h it)) Exhausted \<and>
         tracks (snd (SentenceIterator_next h it)) it toks Exhausted"
        by (simp add: transition_def tracks_def reads_def)
      then show ?thesis ..
    qed
  next
    case Exhausted
    with assms have idx: "index (iterators h ! it) = int (length toks)"
      by (auto simp: tracks_def)
    then have obj: "iterators h ! it = \<lparr>words = ?wr, index = int (length toks)\<rparr>" by simp
    with rd have "SentenceIterator_next h it = (Inl StopIteration, h)"
      by (intro next_past_end) auto
    with rd idx Exhausted have
      "transition toks a (fst (SentenceIterator_next h it)) Exhausted \<and>
       tracks (snd (SentenceIterator_next h it)) it toks Exhausted"
      by (simp add: transition_def tracks_def reads_def)
    then show ?thesis ..
  qed
qed

lemma tracks_initial:
  assumes "s < length (sentences h)" and "Sentence.words (sentences h ! s) < length (lists h)"
  shows "\<exists>it. fst (Sentence_iter h s) = Inr it \<and>
           tracks (snd (Sentence_iter h s)) it (lists h ! Sentence.words (sentences h ! s)) (Active 0)"
  using assms by (simp add: iter_fresh tracks_def reads_def)

lemma transition_deterministic:
  "transition toks a out1 a1 \<Longrightarrow> transition toks a out2 a2 \<Longrightarrow> out1 = out2 \<and> a1 = a2"
  by (auto simp: transition_def split: cursor_state.splits)

text \<open>
  Claim C3. A cursor follows the state machine of the specification. Whenever the
  iterator object tracks a state of the machine, an advance gives the output of the one
  transition the machine has in that state and leaves the object tracking that
  transition's target; a cursor just obtained from a \<open>Sentence\<close> tracks \<open>Active 0\<close>.
  Spelled out: in \<open>Active i\<close> with \<open>i\<close> below the number of tokens the advance returns
  token \<open>i\<close> and the cursor is in \<open>Active (i + 1)\<close>; in \<open>Active n\<close>, with \<open>n\<close> the
  number of tokens, it signals \<^verbatim>\<open>StopIteration\<close> and the cursor is \<open>Exhausted\<close>; in
  \<open>Exhausted\<close> it signals \<^verbatim>\<open>StopIteration\<close> and the cursor stays \<open>Exhausted\<close>.
\<close>

theorem advance_follows_state_machine:
  "(tracks h it toks a \<longrightarrow>
      (\<exists>a'. transition toks a (fst (SentenceIterator_next h it)) a' \<and>
             tracks (snd (SentenceIterator_next h it)) it toks a' \<and>
             (\<forall>out a''. transition toks a out a'' \<longrightarrow>
                out = fst (SentenceIterator_next h it) \<and> a'' = a'))) \<and>
   (s < length (sentences h) \<and> Sentence.words (sentences h ! s) < length (lists h) \<longrightarrow>
      (\<exists>c. fst (Sentence_iter h s) = Inr c \<and>
           tracks (snd (Sentence_iter h s)) c
             (lists h ! Sentence.words (sentences h ! s)) (Active 0))) \<and>
   (tracks h it toks (Active i) \<and> i < length toks \<longrightarrow>
      fst (SentenceIterator_next h it) = Inr (toks ! i) \<and>
      tracks (snd (SentenceIterator_next h it)) it toks (Active (Suc i))) \<and>
   (tracks h it toks (Active (length toks)) \<longrightarrow>
      fst (SentenceIterator_next h it) = Inl StopIteration \<and>
      tracks (snd (SentenceIterator_next h it)) it toks Exhausted) \<and>
   (tracks h it toks Exhausted \<longrightarrow>
      fst (SentenceIterator_next h it) = Inl StopIteration \<and>
      tracks (snd (SentenceIterator_next h it)) it toks Exhausted)"
proof -
  have sim: "\<exists>a'. transition toks a (fst (SentenceIterator_next h it)) a' \<and>
             tracks (snd (SentenceIterator_next h it)) it toks a' \<and>
             (\<forall>out a''. transition toks a out a'' \<longrightarrow>
                out = fst (SentenceIterator_next h it) \<and> a'' = a')"
    if "tracks h it toks a" for a
  proof -
    from tracks_step [OF that] obtain a' where
      a': "transition toks a (fst (SentenceIterator_next h it)) a'"
        "tracks (snd (SentenceIterator_next h it)) it toks a'" by blast
    then have "\<forall>out a''. transition toks a out a'' \<longrightarrow>
        out = fst (SentenceIterator_next h it) \<and> a'' = a'"
      using transition_deterministic by blast
    with a' show ?thesis by blast
  qed
  have inside: "fst (SentenceIterator_next h it) = Inr (toks ! i) \<and>
      tracks (snd (SentenceIterator_next h it)) it toks (Active (Suc i))"
    if "tracks h it toks (Active i)" "i < length toks"
    using tracks_step [OF that(1)] that(2) by (auto simp: transition_def)
  have last: "fst (SentenceIterator_next h it) = Inl StopIteration \<and>
      tracks (snd (SentenceIterator_next h it)) it toks Exhausted"
    if "tracks h it toks (Active (length toks))"
    using tracks_step [OF that] by (auto simp: transition_def)
  have stay: "fst (SentenceIterator_next h it) = Inl StopIteration \<and>
      tracks (snd (SentenceIterator_next h it)) it toks Exhausted"
    if "tracks h it toks Exhausted"
    using tracks_step [OF that] by (auto simp: transition_def)
  from sim [of a] inside last stay tracks_initial [of s h] show ?thesis by blast
qed

theorem advance_follows_state_machine_witness:
  "tracks (example_heap\<lparr>iterators := [\<lparr>words = 0, index = 2\<rparr>]\<rparr>) 0 [''a'', ''b''] (Active 2) \<and>
   transition [''a'', ''b''] (Active 2) (Inl StopIteration) Exhausted \<and>
   fst (SentenceIterator_next (example_heap\<lparr>iterators := [\<lparr>words = 0, index = 2\<rparr>]\<rparr>) 0) =
     Inl StopIteration \<and>
   tracks (snd (SentenceIterator_next (example_heap\<lparr>iterators := [\<lparr>words = 0, index = 2\<rparr>]\<rparr>) 0))
     0 [''a'', ''b''] Exhausted \<and>
   (\<exists>c. fst (Sentence_iter (example_heap\<lparr>iterators := [\<lparr>words = 0, index = 2\<rparr>]\<rparr>) 0) = Inr c \<and>
        tracks (snd (Sentence_iter (example_heap\<lparr>iterators := [\<lparr>words = 0, index = 2\<rparr>]\<rparr>) 0))
          c [''a'', ''b''] (Active 0))"
proof -
  let ?h = "example_heap\<lparr>iterators := [\<lparr>words = 0, index = 2\<rparr>]\<rparr>"
  have t2: "tracks ?h 0 [''a'', ''b''] (Active 2)"
    by (simp add: tracks_def reads_def example_heap_eq)
  have t: "tracks ?h 0 [''a'', ''b''] (Active (length [''a'', ''b'']))"
    by (simp add: tracks_def reads_def example_heap_eq)
  have s: "0 < length (sentences ?h) \<and>
      Sentence.words (sentences ?h ! 0) < length (lists ?h)"
    by (simp add: example_heap_eq)
  from advance_follows_state_machine
    [where h = ?h and it = 0 and toks = "[''a'', ''b'']" and a = "Active 2" and s = 0] t s
  have "fst (SentenceIterator_next ?h 0) = Inl StopIteration"
    "tracks (snd (SentenceIterator_next ?h 0)) 0 [''a'', ''b''] Exhausted"
    "\<exists>c. fst (Sentence_iter ?h 0) = Inr c \<and>
        tracks (snd (Sentence_iter ?h 0)) c
          (lists ?h ! Sentence.words (sentences ?h ! 0)) (Active 0)"
    by simp_all
  moreover have "transition [''a'', ''b''] (Active 2) (Inl StopIteration) Exhausted"
    by (simp add: transition_def)
  ultimately show ?thesis using t2 by (simp add: example_heap_eq)
qed

subsection \<open>Fresh and independent cursors\<close>

text \<open>
  Claim C2. Let \<open>c1\<close> and \<open>c2\<close> be obtained from the same \<open>Sentence\<close> by two traversal
  requests, the second after any calls whatever. Each request succeeds and returns a new
  object (an address not in use before the request), the two are different, and each
  starts at index zero. Any number of advances of \<open>c1\<close> leaves the object \<open>c2\<close> and the
  result of its next advance unchanged, and the same holds with the roles exchanged.
  Drained to exhaustion, \<open>c1\<close> (from the heap in which it was made) and \<open>c2\<close> (after
  any number of advances of \<open>c1\<close>) yield the same tokens, those of the \<open>Sentence\<close>.
\<close>

theorem cursors_fresh_and_independent:
  assumes s: "s < length (sentences h)"
    and wr: "Sentence.words (sentences h ! s) < length (lists h)"
    and r1: "Sentence_iter h s = (r1, h1)"
    and r2: "Sentence_iter (execs h1 calls) s = (r2, h2)"
    and fuel: "length (lists h ! Sentence.words (sentences h ! s)) < fuel"
  shows "\<exists>c1 c2. r1 = Inr c1 \<and> r2 = Inr c2 \<and>
     length (iterators h) \<le> c1 \<and> c1 < length (iterators h1) \<and>
     length (iterators (execs h1 calls)) \<le> c2 \<and> c2 < length (iterators h2) \<and>
     c1 \<noteq> c2 \<and>
     index (iterators h1 ! c1) = 0 \<and> index (iterators h2 ! c2) = 0 \<and>
     (\<forall>k. iterators (execs h2 (replicate k (Next c1))) ! c2 = iterators h2 ! c2 \<and>
          fst (SentenceIterator_next (execs h2 (replicate k (Next c1))) c2) =
            fst (SentenceIterator_next h2 c2)) \<and>
     (\<forall>k. iterators (execs h2 (replicate k (Next c2))) ! c1 = iterators h2 ! c1 \<and>
          fst (SentenceIterator_next (execs h2 (replicate k (Next c2))) c1) =
            fst (SentenceIterator_next h2 c1)) \<and>
     map_option fst (drain fuel h1 c1) =
       Some (Inr (lists h ! Sentence.words (sentences h ! s))) \<and>
     (\<forall>k. map_option fst (drain fuel (execs h2 (replicate k (Next c1))) c2) =
       Some (Inr (lists h ! Sentence.words (sentences h ! s))))"
proof -
  let ?wr = "Sentence.words (sentences h ! s)"
  let ?c1 = "length (iterators h)"
  let ?g = "execs h1 calls"
  let ?c2 = "length (iterators ?g)"
  from r1 s have c1: "r1 = Inr ?c1"
    and h1: "h1 = h\<lparr>iterators := iterators h @ [\<lparr>words = ?wr, index = 0\<rparr>]\<rparr>"
    by (simp_all add: iter_fresh)
  have g: "sentences ?g = sentences h" "lists ?g = lists h"
    by (simp_all add: execs_frame h1)
  with r2 s have c2: "r2 = Inr ?c2"
    and h2: "h2 = ?g\<lparr>iterators := iterators ?g @ [\<lparr>words = ?wr, index = 0\<rparr>]\<rparr>"
    by (simp_all add: iter_fresh)
  have len: "length (iterators h1) \<le> ?c2"
    by (rule execs_frame)
  then have lt: "?c1 < ?c2" by (simp add: h1)
  have h2_frame: "lists h2 = lists h" "length (iterators h2) = Suc ?c2"
    by (simp_all add: h2 g)
  have indep: "iterators (execs h2 (replicate k (Next a))) ! b = iterators h2 ! b \<and>
      fst (SentenceIterator_next (execs h2 (replicate k (Next a))) b) =
        fst (SentenceIterator_next h2 b)"
    if "a \<noteq> b" "b < length (iterators h2)" for a b k
  proof -
    from that have same: "iterators (execs h2 (replicate k (Next a))) ! b = iterators h2 ! b"
      by (intro execs_other) auto
    have "b < length (iterators (execs h2 (replicate k (Next a))))"
      using that(2) execs_frame(3) [of h2 "replicate k (Next a)"] by simp
    with same that(2) show ?thesis
      using next_depends [of "execs h2 (replicate k (Next a))" h2 b]
      by (simp add: execs_frame)
  qed
  have d1: "map_option fst (drain fuel h1 ?c1) = Some (Inr (lists h ! ?wr))"
    using wr fuel drain_fresh [of ?c1 h1 ?wr fuel] by (simp add: h1)
  have d2: "map_option fst (drain fuel (execs h2 (replicate k (Next ?c1))) ?c2) =
      Some (Inr (lists h ! ?wr))" for k
  proof -
    let ?e = "execs h2 (replicate k (Next ?c1))"
    have "iterators ?e ! ?c2 = iterators h2 ! ?c2"
      using lt by (intro execs_other) (auto simp: h2_frame)
    then have obj: "iterators ?e ! ?c2 = \<lparr>words = ?wr, index = 0\<rparr>"
      by (simp add: h2)
    have "?c2 < length (iterators ?e)"
      using execs_frame(3) [of h2 "replicate k (Next ?c1)"] by (simp add: h2_frame)
    moreover have "lists ?e = lists h" by (simp add: execs_frame h2_frame)
    ultimately show ?thesis
      using obj wr fuel drain_fresh [of ?c2 ?e ?wr fuel] by simp
  qed
  have in2: "?c1 < length (iterators h2)" "?c2 < length (iterators h2)"
    using lt by (simp_all add: h2_frame)
  show ?thesis
  proof (intro exI conjI allI)
    show "r1 = Inr ?c1" by (rule c1)
    show "r2 = Inr ?c2" by (rule c2)
    show "length (iterators h) \<le> ?c1" by simp
    show "?c1 < length (iterators h1)" by (simp add: h1)
    show "length (iterators ?g) \<le> ?c2" by simp
    show "?c2 < length (iterators h2)" by (rule in2)
    show "?c1 \<noteq> ?c2" using lt by simp
    show "index (iterators h1 ! ?c1) = 0" by (simp add: h1)
    show "index (iterators h2 ! ?c2) = 0" by (simp add: h2)
    show "iterators (execs h2 (replicate k (Next ?c1))) ! ?c2 = iterators h2 ! ?c2" for k
      using indep [of ?c1 ?c2 k] lt in2 by simp
    show "fst (SentenceIterator_next (execs h2 (replicate k (Next ?c1))) ?c2) =
            fst (SentenceIterator_next h2 ?c2)" for k
      using indep [of ?c1 ?c2 k] lt in2 by simp
    show "iterators (execs h2 (replicate k (Next ?c2))) ! ?c1 = iterators h2 ! ?c1" for k
      using indep [of ?c2 ?c1 k] lt in2 by simp
    show "fst (SentenceIterator_next (execs h2 (replicate k (Next ?c2))) ?c1) =
            fst (SentenceIterator_next h2 ?c1)" for k
      using indep [of ?c2 ?c1 k] lt in2 by simp
    show "map_option fst (drain fuel h1 ?c1) = Some (Inr (lists h ! ?wr))" by (rule d1)
    show "map_option fst (drain fuel (execs h2 (replicate k (Next ?c1))) ?c2) =
       Some (Inr (lists h ! ?wr))" for k by (rule d2)
  qed
qed

theorem cursors_fresh_and_independent_witness:
  "\<exists>h1 h2. Sentence_iter example_heap 0 = (Inr 0, h1) \<and>
     Sentence_iter (execs h1 [Next 0]) 0 = (Inr 1, h2) \<and>
     index (iterators h2 ! 0) = 1 \<and> index (iterators h2 ! 1) = 0 \<and>
     iterators (execs h2 (replicate 2 (Next 0))) ! 1 = iterators h2 ! 1 \<and>
     fst (SentenceIterator_next (execs h2 (replicate 2 (Next 0))) 1) = Inr ''a'' \<and>
     map_option fst (drain 3 h1 0) = Some (Inr [''a'', ''b'']) \<and>
     map_option fst (drain 3 (execs h2 (replicate 2 (Next 0))) 1) = Some (Inr [''a'', ''b''])"
proof -
  let ?h1 = "example_heap\<lparr>iterators := [\<lparr>words = 0, index = 0\<rparr>]\<rparr>"
  let ?h2 = "example_heap\<lparr>iterators := [\<lparr>words = 0, index = 1\<rparr>, \<lparr>words = 0, index = 0\<rparr>]\<rparr>"
  have s: "0 < length (sentences example_heap)"
    and wr: "Sentence.words (sentences example_heap ! 0) < length (lists example_heap)"
    and fuel: "length (lists example_heap ! Sentence.words (sentences example_heap ! 0)) < 3"
    by (simp_all add: example_heap_eq)
  have r1: "Sentence_iter example_heap 0 = (Inr 0, ?h1)"
    by (simp add: example_heap_eq run_defs)
  have r2: "Sentence_iter (execs ?h1 [Next 0]) 0 = (Inr 1, ?h2)"
    by (simp add: example_heap_eq run_defs)
  from cursors_fresh_and_independent [OF s wr r1 r2 fuel]
  have ind: "iterators (execs ?h2 (replicate k (Next 0))) ! 1 = iterators ?h2 ! 1"
      "fst (SentenceIterator_next (execs ?h2 (replicate k (Next 0))) 1) =
         fst (SentenceIterator_next ?h2 1)"
    and d1: "map_option fst (drain 3 ?h1 0) =
         Some (Inr (lists example_heap ! Sentence.words (sentences example_heap ! 0)))"
    and d2: "map_option fst (drain 3 (execs ?h2 (replicate k (Next 0))) 1) =
         Some (Inr (lists example_heap ! Sentence.words (sentences example_heap ! 0)))"
    for k
    by auto
  have "fst (SentenceIterator_next ?h2 1) = Inr ''a''"
    by (simp add: example_heap_eq run_defs)
  with ind [of 2] d1 d2 [of 2] r1 r2 show ?thesis
    by (intro exI [of _ ?h1] exI [of _ ?h2]) (simp add: example_heap_eq)
qed

subsection \<open>Sentences without words\<close>

lemma findall_no_words:
  assumes "\<forall>c\<in>set S. \<not> w c"
  shows "findall w S = []"
proof -
  have "\<not> run_start w S i" for i
    using assms by (auto simp: run_start_def)
  then have "filter (run_start w S) [0..<length S] = []"
    by (simp add: filter_empty_conv)
  then show ?thesis
    by (simp add: findall_def finditer_maximal_runs maximal_runs_starts)
qed

lemma next_never_IndexError: "fst (SentenceIterator_next h it) \<noteq> Inl IndexError"
  using next_cases [of h it] by auto

text \<open>
  Claim C6. For a string without word characters (the empty string among them)
  constructing the \<open>Sentence\<close> (which has no failing branch) gives an empty token list; a traversal request returns
  a cursor at index zero, where indexing the list raises \<^verbatim>\<open>IndexError\<close>; the advance
  turns it into \<^verbatim>\<open>StopIteration\<close> and leaves the heap as it is, so the \<^verbatim>\<open>for\<close> loop
  ends at once with no token. No advance, on any heap and any cursor, lets an
  \<^verbatim>\<open>IndexError\<close> out.
\<close>

theorem empty_sentence_stops_at_once:
  assumes "\<forall>c\<in>set S. \<not> w c"
    and "Sentence_init w h S = (s, h1)"
  shows "findall w S = [] \<and>
         lists h1 ! Sentence.words (sentences h1 ! s) = [] \<and>
         (\<exists>it h2. Sentence_iter h1 s = (Inr it, h2) \<and>
            index (iterators h2 ! it) = 0 \<and>
            getitem (lists h2 ! SentenceIterator.words (iterators h2 ! it))
              (index (iterators h2 ! it)) = Inl IndexError \<and>
            SentenceIterator_next h2 it = (Inl StopIteration, h2) \<and>
            for_loop (Suc k) h1 s = Some (Inr [], h2)) \<and>
         (\<forall>h' it'. fst (SentenceIterator_next h' it') \<noteq> Inl IndexError)"
proof -
  have none: "findall w S = []" using assms(1) by (rule findall_no_words)
  from assms(2) have s: "s = length (sentences h)"
    and h1: "h1 = h\<lparr>lists := lists h @ [[]],
        sentences := sentences h @ [\<lparr>Sentence.sentence = S, words = length (lists h)\<rparr>]\<rparr>"
    by (auto simp: Sentence_init_def none)
  let ?it = "length (iterators h)"
  let ?h2 = "h1\<lparr>iterators := iterators h1 @ [\<lparr>words = length (lists h), index = 0\<rparr>]\<rparr>"
  have it: "Sentence_iter h1 s = (Inr ?it, ?h2)"
    by (simp add: iter_fresh s h1)
  have stop: "SentenceIterator_next ?h2 ?it = (Inl StopIteration, ?h2)"
    by (rule next_past_end [where wr = "length (lists h)" and i = 0]) (simp_all add: h1)
  have "for_loop (Suc k) h1 s = Some (Inr [], ?h2)"
    unfolding for_loop_def it by (simp add: stop)
  moreover have "getitem (lists ?h2 ! SentenceIterator.words (iterators ?h2 ! ?it))
      (index (iterators ?h2 ! ?it)) = Inl IndexError"
    by (simp add: h1 getitem_def)
  moreover have "index (iterators ?h2 ! ?it) = 0" by (simp add: h1)
  moreover have "lists h1 ! Sentence.words (sentences h1 ! s) = []"
    by (simp add: s h1)
  ultimately show ?thesis
    using none it stop next_never_IndexError by blast
qed

theorem empty_sentence_stops_at_once_witness:
  "(\<exists>c. c \<in> set ''. -'') \<and>
   findall ascii_word ''. -'' = [] \<and>
   for_loop 1 (snd (Sentence_init ascii_word empty_heap ''. -''))
     (fst (Sentence_init ascii_word empty_heap ''. -'')) =
     Some (Inr [], \<lparr>lists = [[]], sentences = [\<lparr>Sentence.sentence = ''. -'', words = 0\<rparr>],
                    iterators = [\<lparr>words = 0, index = 0\<rparr>]\<rparr>)"
proof -
  have none: "\<forall>c\<in>set ''. -''. \<not> ascii_word c"
    by (simp add: ascii_word_def)
  have init: "Sentence_init ascii_word empty_heap ''. -'' =
      (0, \<lparr>lists = [[]], sentences = [\<lparr>Sentence.sentence = ''. -'', words = 0\<rparr>], iterators = []\<rparr>)"
    using findall_no_words [OF none] by (simp add: Sentence_init_def empty_heap_def)
  from empty_sentence_stops_at_once [OF none init, of 0] init show ?thesis
    by (auto simp: run_defs)
qed

section \<open>The three realizations against the contract\<close>

lemma client_simulation:
  assumes len: "\<And>h cs ps. R h cs ps \<Longrightarrow> length cs = length ps"
    and trav: "\<And>h cs ps. R h cs ps \<Longrightarrow> \<exists>c h'. begin h = (Inr c, h') \<and> R h' (cs @ [c]) (ps @ [0])"
    and more: "\<And>h cs ps j. R h cs ps \<Longrightarrow> j < length cs \<Longrightarrow> ps ! j < length toks \<Longrightarrow>
        \<exists>h'. adv h (cs ! j) = (Inr (toks ! (ps ! j)), h') \<and> R h' cs (ps[j := Suc (ps ! j)])"
    and stop: "\<And>h cs ps j. R h cs ps \<Longrightarrow> j < length cs \<Longrightarrow> \<not> ps ! j < length toks \<Longrightarrow>
        \<exists>h'. adv h (cs ! j) = (Inl StopIteration, h') \<and> R h' cs ps"
  shows "R h cs ps \<Longrightarrow> client begin adv h cs ops = contract toks ps ops"
proof (induction ops arbitrary: h cs ps)
  case Nil
  show ?case by simp
next
  case (Cons op ops)
  show ?case
  proof (cases op)
    case Traverse
    from trav [OF Cons.prems] obtain c h' where
      "begin h = (Inr c, h')" "R h' (cs @ [c]) (ps @ [0])" by blast
    with Cons.IH Traverse show ?thesis by simp
  next
    case (Advance j)
    from len [OF Cons.prems] have l: "length cs = length ps" .
    show ?thesis
    proof (cases "j < length cs")
      case False
      with l Cons.IH [OF Cons.prems] Advance show ?thesis by simp
    next
      case True
      note j = this
      show ?thesis
      proof (cases "ps ! j < length toks")
        case True
        from more [OF Cons.prems j True] obtain h' where
          "adv h (cs ! j) = (Inr (toks ! (ps ! j)), h')" "R h' cs (ps[j := Suc (ps ! j)])"
          by blast
        with Cons.IH Advance j l True show ?thesis by simp
      next
        case False
        from stop [OF Cons.prems j False] obtain h' where
          "adv h (cs ! j) = (Inl StopIteration, h')" "R h' cs ps" by blast
        with Cons.IH Advance j l False show ?thesis by simp
      qed
    qed
  qed
qed

lemma handbuilt_simulation:
  assumes "handbuilt_rel s wr toks h cs ps"
  shows "client (\<lambda>h. Sentence_iter h s) SentenceIterator_next h cs ops = contract toks ps ops"
  using _ _ _ _ assms
proof (rule client_simulation [where R = "handbuilt_rel s wr toks"])
  fix h :: "'a heap" and cs ps
  assume "handbuilt_rel s wr toks h cs ps"
  then show "length cs = length ps" by (simp add: handbuilt_rel_def)
next
  fix h :: "'a heap" and cs ps
  assume R: "handbuilt_rel s wr toks h cs ps"
  let ?c = "length (iterators h)"
  let ?h = "h\<lparr>iterators := iterators h @ [\<lparr>words = wr, index = 0\<rparr>]\<rparr>"
  from R have "Sentence_iter h s = (Inr ?c, ?h)"
    by (simp add: handbuilt_rel_def iter_fresh)
  moreover have "handbuilt_rel s wr toks ?h (cs @ [?c]) (ps @ [0])"
  proof -
    from R have old: "\<And>j. j < length cs \<Longrightarrow> cs ! j < ?c"
      by (simp add: handbuilt_rel_def)
    then have "?c \<notin> set cs" by (metis in_set_conv_nth less_irrefl)
    with R old show ?thesis
      by (auto simp: handbuilt_rel_def nth_append less_Suc_eq)
  qed
  ultimately show "\<exists>c h'. Sentence_iter h s = (Inr c, h') \<and>
      handbuilt_rel s wr toks h' (cs @ [c]) (ps @ [0])" by blast
next
  fix h :: "'a heap" and cs ps j
  assume R: "handbuilt_rel s wr toks h cs ps" and j: "j < length cs"
    and p: "ps ! j < length toks"
  let ?c = "cs ! j"
  let ?h = "h\<lparr>iterators := (iterators h)[?c := \<lparr>words = wr, index = int (Suc (ps ! j))\<rparr>]\<rparr>"
  from R j p have "SentenceIterator_next h ?c = (Inr (lists h ! wr ! (ps ! j)), ?h)"
    by (intro next_in_range) (auto simp: handbuilt_rel_def)
  moreover from R have "lists h ! wr = toks" by (simp add: handbuilt_rel_def)
  moreover have "handbuilt_rel s wr toks ?h cs (ps[j := Suc (ps ! j)])"
  proof -
    have "iterators ?h ! (cs ! k) = \<lparr>words = wr, index = int (ps[j := Suc (ps ! j)] ! k)\<rparr>"
      if k: "k < length cs" for k
    proof (cases "k = j")
      case True
      with R j show ?thesis by (simp add: handbuilt_rel_def)
    next
      case False
      with R j k have "cs ! k \<noteq> cs ! j"
        by (simp add: handbuilt_rel_def nth_eq_iff_index_eq)
      with R k False show ?thesis by (simp add: handbuilt_rel_def)
    qed
    with R show ?thesis by (simp add: handbuilt_rel_def)
  qed
  ultimately show "\<exists>h'. SentenceIterator_next h (cs ! j) = (Inr (toks ! (ps ! j)), h') \<and>
      handbuilt_rel s wr toks h' cs (ps[j := Suc (ps ! j)])" by simp
next
  fix h :: "'a heap" and cs ps j
  assume R: "handbuilt_rel s wr toks h cs ps" and j: "j < length cs"
    and p: "\<not> ps ! j < length toks"
  from R j p have "SentenceIterator_next h (cs ! j) = (Inl StopIteration, h)"
    by (intro next_past_end [where wr = wr and i = "ps ! j"]) (auto simp: handbuilt_rel_def)
  with R show "\<exists>h'. SentenceIterator_next h (cs ! j) = (Inl StopIteration, h') \<and>
      handbuilt_rel s wr toks h' cs ps" by simp
qed

lemma observe_handbuilt_contract:
  "observe_handbuilt w h S ops = contract (findall w S) [] ops"
proof -
  have "handbuilt_rel (length (sentences h)) (length (lists h)) (findall w S)
      (snd (Sentence_init w h S)) [] []"
    by (simp add: handbuilt_rel_def Sentence_init_def)
  from handbuilt_simulation [OF this] show ?thesis
    by (simp add: observe_handbuilt_def Sentence_init_def)
qed

lemma gen_rel_update:
  assumes R: "gen_rel s wr toks h cs ps" and j: "j < length cs"
    and f: "gen_frame_rel s wr (length toks) f p"
  shows "gen_rel s wr toks (h\<lparr>generators := (generators h)[cs ! j := f]\<rparr>) cs (ps[j := p])"
proof -
  have "gen_frame_rel s wr (length toks) ((generators h)[cs ! j := f] ! (cs ! k)) (ps[j := p] ! k)"
    if k: "k < length cs" for k
  proof (cases "k = j")
    case True
    with R j f show ?thesis by (simp add: gen_rel_def)
  next
    case False
    with R j k have "cs ! k \<noteq> cs ! j"
      by (simp add: gen_rel_def nth_eq_iff_index_eq)
    with R k False show ?thesis by (simp add: gen_rel_def)
  qed
  with R show ?thesis by (simp add: gen_rel_def)
qed

lemma gen_simulation:
  assumes "gen_rel s wr toks h cs ps"
  shows "client (\<lambda>h. Sentence_gen_iter h s) gen_next h cs ops = contract toks ps ops"
  using _ _ _ _ assms
proof (rule client_simulation [where R = "gen_rel s wr toks"])
  fix h :: "'a gen_heap" and cs ps
  assume "gen_rel s wr toks h cs ps"
  then show "length cs = length ps" by (simp add: gen_rel_def)
next
  fix h :: "'a gen_heap" and cs ps
  assume R: "gen_rel s wr toks h cs ps"
  let ?c = "length (generators h)"
  let ?h = "h\<lparr>generators := generators h @ [Created s]\<rparr>"
  from R have "Sentence_gen_iter h s = (Inr ?c, ?h)"
    by (simp add: gen_rel_def Sentence_gen_iter_def)
  moreover have "gen_rel s wr toks ?h (cs @ [?c]) (ps @ [0])"
  proof -
    from R have old: "\<And>j. j < length cs \<Longrightarrow> cs ! j < ?c"
      by (simp add: gen_rel_def)
    then have "?c \<notin> set cs" by (metis in_set_conv_nth less_irrefl)
    with R old show ?thesis
      by (auto simp: gen_rel_def gen_frame_rel_def nth_append less_Suc_eq)
  qed
  ultimately show "\<exists>c h'. Sentence_gen_iter h s = (Inr c, h') \<and>
      gen_rel s wr toks h' (cs @ [c]) (ps @ [0])" by blast
next
  fix h :: "'a gen_heap" and cs ps j
  assume R: "gen_rel s wr toks h cs ps" and j: "j < length cs"
    and p: "ps ! j < length toks"
  from R j have c: "cs ! j < length (generators h)"
    and f: "gen_frame_rel s wr (length toks) (generators h ! (cs ! j)) (ps ! j)"
    and heap: "s < length (gen_sentences h)" "Sentence.words (gen_sentences h ! s) = wr"
      "wr < length (gen_lists h)" "gen_lists h ! wr = toks"
    by (simp_all add: gen_rel_def)
  let ?h = "h\<lparr>generators := (generators h)[cs ! j := Suspended wr (Suc (ps ! j))]\<rparr>"
  from c f heap p have "gen_next h (cs ! j) = (Inr (toks ! (ps ! j)), ?h)"
    by (auto simp: gen_next_def resume_def gen_frame_rel_def split: gen_frame.splits)
  moreover have "gen_rel s wr toks ?h cs (ps[j := Suc (ps ! j)])"
    using R j by (rule gen_rel_update) (simp add: gen_frame_rel_def)
  ultimately show "\<exists>h'. gen_next h (cs ! j) = (Inr (toks ! (ps ! j)), h') \<and>
      gen_rel s wr toks h' cs (ps[j := Suc (ps ! j)])" by simp
next
  fix h :: "'a gen_heap" and cs ps j
  assume R: "gen_rel s wr toks h cs ps" and j: "j < length cs"
    and p: "\<not> ps ! j < length toks"
  from R j have c: "cs ! j < length (generators h)"
    and f: "gen_frame_rel s wr (length toks) (generators h ! (cs ! j)) (ps ! j)"
    and heap: "s < length (gen_sentences h)" "Sentence.words (gen_sentences h ! s) = wr"
      "wr < length (gen_lists h)" "gen_lists h ! wr = toks"
    and l: "length cs = length ps"
    by (simp_all add: gen_rel_def)
  let ?h = "h\<lparr>generators := (generators h)[cs ! j := Finished]\<rparr>"
  have same: "gen_rel s wr toks ?h cs ps"
    using gen_rel_update [OF R j, of Finished "ps ! j"] p
    by (simp add: gen_frame_rel_def)
  show "\<exists>h'. gen_next h (cs ! j) = (Inl StopIteration, h') \<and> gen_rel s wr toks h' cs ps"
  proof (cases "generators h ! (cs ! j) = Finished")
    case True
    with c R show ?thesis by (simp add: gen_next_def)
  next
    case False
    with c f heap p have "gen_next h (cs ! j) = (Inl StopIteration, ?h)"
      by (auto simp: gen_next_def resume_def gen_frame_rel_def split: gen_frame.splits)
    with same show ?thesis by simp
  qed
qed

lemma observe_gen_contract:
  "observe_gen w h S ops = contract (findall w S) [] ops"
proof -
  have "gen_rel (length (gen_sentences h)) (length (gen_lists h)) (findall w S)
      (snd (Sentence_gen_init w h S)) [] []"
    by (simp add: gen_rel_def Sentence_gen_init_def)
  from gen_simulation [OF this] show ?thesis
    by (simp add: observe_gen_def Sentence_gen_init_def)
qed

lemma genexp_rel_update:
  assumes R: "genexp_rel w S s h cs ps" and j: "j < length cs"
    and f: "genexp_frame_rel w S f p"
  shows "genexp_rel w S s (h\<lparr>genexps := (genexps h)[cs ! j := f]\<rparr>) cs (ps[j := p])"
proof -
  have "genexp_frame_rel w S ((genexps h)[cs ! j := f] ! (cs ! k)) (ps[j := p] ! k)"
    if k: "k < length cs" for k
  proof (cases "k = j")
    case True
    with R j f show ?thesis by (simp add: genexp_rel_def)
  next
    case False
    with R j k have "cs ! k \<noteq> cs ! j"
      by (simp add: genexp_rel_def nth_eq_iff_index_eq)
    with R k False show ?thesis by (simp add: genexp_rel_def)
  qed
  with R show ?thesis by (simp add: genexp_rel_def)
qed

lemma genexp_simulation:
  assumes "genexp_rel w S s h cs ps"
  shows "client (\<lambda>h. Sentence_genexp_iter h s) genexp_next h cs ops =
           contract (findall w S) ps ops"
  using _ _ _ _ assms
proof (rule client_simulation [where R = "genexp_rel w S s"])
  fix h :: "'a genexp_heap" and cs ps
  assume "genexp_rel w S s h cs ps"
  then show "length cs = length ps" by (simp add: genexp_rel_def)
next
  fix h :: "'a genexp_heap" and cs ps
  assume R: "genexp_rel w S s h cs ps"
  let ?c = "length (genexps h)"
  let ?h = "h\<lparr>genexps := genexps h @ [Scanning w S 0]\<rparr>"
  from R have "Sentence_genexp_iter h s = (Inr ?c, ?h)"
    by (simp add: genexp_rel_def Sentence_genexp_iter_def)
  moreover have "genexp_rel w S s ?h (cs @ [?c]) (ps @ [0])"
  proof -
    from R have old: "\<And>j. j < length cs \<Longrightarrow> cs ! j < ?c"
      by (simp add: genexp_rel_def)
    then have "?c \<notin> set cs" by (metis in_set_conv_nth less_irrefl)
    with R old show ?thesis
      by (auto simp: genexp_rel_def genexp_frame_rel_def nth_append less_Suc_eq)
  qed
  ultimately show "\<exists>c h'. Sentence_genexp_iter h s = (Inr c, h') \<and>
      genexp_rel w S s h' (cs @ [c]) (ps @ [0])" by blast
next
  fix h :: "'a genexp_heap" and cs ps j
  assume R: "genexp_rel w S s h cs ps" and j: "j < length cs"
    and p: "ps ! j < length (findall w S)"
  from R j have c: "cs ! j < length (genexps h)"
    and f: "genexp_frame_rel w S (genexps h ! (cs ! j)) (ps ! j)"
    by (simp_all add: genexp_rel_def)
  from p have p': "ps ! j < length (finditer w S 0)" by (simp add: findall_def)
  with f obtain pos where fr: "genexps h ! (cs ! j) = Scanning w S pos"
    and rest: "finditer w S pos = drop (ps ! j) (finditer w S 0)"
    by (auto simp: genexp_frame_rel_def split: genexp_frame.splits)
  from rest p' have "finditer w S pos \<noteq> []" by simp
  then obtain m where m: "search w S pos = Some m"
    and unfold: "finditer w S pos = m # finditer w S (snd m)"
    by (cases "search w S pos") (auto simp: finditer.simps [of w S pos])
  from unfold rest p' have hd: "m = finditer w S 0 ! (ps ! j)"
    and tl: "finditer w S (snd m) = drop (Suc (ps ! j)) (finditer w S 0)"
    by (simp_all add: Cons_nth_drop_Suc [symmetric])
  let ?h = "h\<lparr>genexps := (genexps h)[cs ! j := Scanning w S (snd m)]\<rparr>"
  from c fr m have "genexp_next h (cs ! j) = (Inr (group S m), ?h)"
    by (simp add: genexp_next_def)
  moreover from hd p' have "group S m = findall w S ! (ps ! j)"
    by (simp add: findall_def)
  moreover have "genexp_rel w S s ?h cs (ps[j := Suc (ps ! j)])"
    using R j by (rule genexp_rel_update) (simp add: genexp_frame_rel_def tl)
  ultimately show "\<exists>h'. genexp_next h (cs ! j) = (Inr (findall w S ! (ps ! j)), h') \<and>
      genexp_rel w S s h' cs (ps[j := Suc (ps ! j)])" by simp
next
  fix h :: "'a genexp_heap" and cs ps j
  assume R: "genexp_rel w S s h cs ps" and j: "j < length cs"
    and p: "\<not> ps ! j < length (findall w S)"
  from R j have c: "cs ! j < length (genexps h)"
    and f: "genexp_frame_rel w S (genexps h ! (cs ! j)) (ps ! j)"
    by (simp_all add: genexp_rel_def)
  from p have p': "length (finditer w S 0) \<le> ps ! j" by (simp add: findall_def)
  let ?h = "h\<lparr>genexps := (genexps h)[cs ! j := Done]\<rparr>"
  have same: "genexp_rel w S s ?h cs ps"
    using genexp_rel_update [OF R j, of Done "ps ! j"] p'
    by (simp add: genexp_frame_rel_def)
  show "\<exists>h'. genexp_next h (cs ! j) = (Inl StopIteration, h') \<and> genexp_rel w S s h' cs ps"
  proof (cases "genexps h ! (cs ! j)")
    case Done
    with c R show ?thesis by (simp add: genexp_next_def)
  next
    case (Scanning w' s' pos)
    with f p' have fr: "genexps h ! (cs ! j) = Scanning w S pos"
      and "finditer w S pos = []"
      by (simp_all add: genexp_frame_rel_def)
    then have "search w S pos = None"
      by (cases "search w S pos") (auto simp: finditer.simps [of w S pos])
    with c fr have "genexp_next h (cs ! j) = (Inl StopIteration, ?h)"
      by (simp add: genexp_next_def)
    with same show ?thesis by simp
  qed
qed

lemma observe_genexp_contract:
  "observe_genexp w h S ops = contract (findall w S) [] ops"
proof -
  have "genexp_rel w S (length (genexp_sentences h)) (snd (Sentence_genexp_init w h S)) [] []"
    by (simp add: genexp_rel_def Sentence_genexp_init_def)
  from genexp_simulation [OF this] show ?thesis
    by (simp add: observe_genexp_def Sentence_genexp_init_def)
qed

lemma contract_one_cursor:
  "contract toks [p] (replicate k (Advance 0)) =
     map Inr (take k (drop p toks)) @ replicate (k - (length toks - p)) (Inl StopIteration)"
proof (induction k arbitrary: p)
  case 0
  show ?case by simp
next
  case (Suc k)
  show ?case
  proof (cases "p < length toks")
    case True
    then have "drop p toks = toks ! p # drop (Suc p) toks"
      by (simp add: Cons_nth_drop_Suc)
    moreover from True have "Suc k - (length toks - p) = k - (length toks - Suc p)"
      by simp
    ultimately show ?thesis using True by (simp add: Suc.IH)
  next
    case False
    then show ?thesis by (simp add: Suc.IH replicate_append_same)
  qed
qed

lemma contract_one_traversal:
  "contract toks [] (Traverse # replicate k (Advance 0)) =
     map Inr (take k toks) @ replicate (k - length toks) (Inl StopIteration)"
  using contract_one_cursor [of toks 0 k] by simp

text \<open>
  Claim C7. For every input string and every client program (any interleaving of
  traversal requests and of advances of the cursors obtained so far), the hand-built
  \<open>Sentence\<close> with its \<open>SentenceIterator\<close>, the \<open>Sentence\<close> with the generator function
  and the \<open>Sentence\<close> with the generator expression over \<^verbatim>\<open>finditer\<close> show the client
  the same results, from whatever heap each starts: those of the contract over the tokens
  \<^verbatim>\<open>re.findall\<close> gives, in which every traversal has a position of its own that starts at
  zero, runs through the tokens in order and then signals \<^verbatim>\<open>StopIteration\<close> for ever.
  In particular one traversal advanced \<open>k\<close> times returns, with each of the three, the
  first \<open>k\<close> tokens and then \<^verbatim>\<open>StopIteration\<close> for every advance past the last token.
\<close>

theorem three_realizations_equivalent:
  "observe_handbuilt w h1 S ops = contract (findall w S) [] ops \<and>
   observe_gen w h2 S ops = contract (findall w S) [] ops \<and>
   observe_genexp w h3 S ops = contract (findall w S) [] ops \<and>
   observe_gen w h2 S ops = observe_handbuilt w h1 S ops \<and>
   observe_genexp w h3 S ops = observe_handbuilt w h1 S ops \<and>
   observe_handbuilt w h1 S (Traverse # replicate k (Advance 0)) =
     map Inr (take k (findall w S)) @ replicate (k - length (findall w S)) (Inl StopIteration) \<and>
   observe_gen w h2 S (Traverse # replicate k (Advance 0)) =
     map Inr (take k (findall w S)) @ replicate (k - length (findall w S)) (Inl StopIteration) \<and>
   observe_genexp w h3 S (Traverse # replicate k (Advance 0)) =
     map Inr (take k (findall w S)) @ replicate (k - length (findall w S)) (Inl StopIteration)"
  by (simp only: observe_handbuilt_contract observe_gen_contract observe_genexp_contract
      contract_one_traversal simp_thms)

section \<open>What the hook leaves behind\<close>




lemma getattr_field:
  "map_of (type_dict inst) attr = Some (FieldObj f) \<Longrightarrow>
   py_getattr depth fs ds inst attr = Field_get depth fs ds f (Some inst)"
  by (simp add: py_getattr.simps)






lemma missing_value_dict_raises:
  assumes "map_of (type_dict inst) a = Some (FieldObj r)" and "fs r = Some n"
    and "''_value_dict'' \<notin> fst ` set (type_dict inst)"
    and "obj_dict inst ''_value_dict'' = None"
  shows "py_getattr (Suc depth) fs ds inst a = Inl AttributeError"
    and "py_setattr (Suc depth) fs ds inst a val = Inl AttributeError"
proof -
  from assms(3) have "map_of (type_dict inst) ''_value_dict'' = None"
    by (simp add: map_of_eq_None_iff)
  with assms(4) have inner: "py_getattr depth fs ds inst ''_value_dict'' = Inl AttributeError"
    by (simp add: py_getattr.simps)
  with assms(1,2) show "py_getattr (Suc depth) fs ds inst a = Inl AttributeError"
    by (simp add: getattr_field)
  from inner assms(1,2) show "py_setattr (Suc depth) fs ds inst a val = Inl AttributeError"
    by (simp add: py_setattr_def)
qed





end
